theory Spec2Isabelle
  imports Main
begin

section \<open>One-time-pad client and server: the model\<close>

text \<open>
  A shallow embedding of \<^verbatim>\<open>enc_server.c\<close> and \<^verbatim>\<open>dec_client.c\<close>, with the symbol table of
  \<^verbatim>\<open>keygen.c\<close>. A process either returns a value or stops: \<open>Error c fmt args\<close> is a
  call \<^verbatim>\<open>error(c, fmt, args...)\<close>, which prints the formatted message to standard error
  and exits with status \<open>c\<close>; \<open>Undefined u\<close> is a step whose behaviour C leaves undefined.
  A loop that may run forever returns an \<open>option\<close>, \<open>None\<close> when it never returns.
\<close>

subsection \<open>Bytes, C strings and C arithmetic\<close>

datatype fmt_arg = S string | C char | D int

datatype ub = ReadOutOfBounds nat | WriteOutOfBounds | Uninitialised | NullPointer | Unterminated

datatype stop = Error int string "fmt_arg list" | Undefined ub

definition NUL :: char where
  "NUL = CHR 0x00"

text \<open>The value of a \<^verbatim>\<open>char\<close> in an expression: \<^verbatim>\<open>char\<close> is signed on the platforms the
  programs were written for, so bytes from 128 on are negative.\<close>

definition sc :: "char \<Rightarrow> int" where
  "sc c = (if of_char c < (128::int) then of_char c else of_char c - 256)"

text \<open>Storing an \<^verbatim>\<open>int\<close> into a \<^verbatim>\<open>char\<close> keeps its low eight bits.\<close>

definition to_char :: "int \<Rightarrow> char" where
  "to_char v = char_of v"

text \<open>The remainder operator \<^verbatim>\<open>%\<close> of C truncates towards zero: the result has the sign of
  the dividend.\<close>

definition c_rem :: "int \<Rightarrow> int \<Rightarrow> int" where
  "c_rem a b = sgn a * (\<bar>a\<bar> mod \<bar>b\<bar>)"

text \<open>Conversion to \<^verbatim>\<open>size_t\<close> (64 bits).\<close>

definition size_t :: "int \<Rightarrow> nat" where
  "size_t v = nat (v mod 2 ^ 64)"

text \<open>
  A \<open>string\<close> \<open>s\<close> that a function of the programs returns or receives stands for a heap
  buffer of \<open>length s + 1\<close> bytes: the bytes of \<open>s\<close>, then the terminating NUL the code
  writes at index \<open>length s\<close>. Reading index \<open>length s\<close> gives that NUL; reading beyond it
  leaves the allocation.
\<close>

definition rd :: "string \<Rightarrow> nat \<Rightarrow> stop + char" where
  "rd buf i = (if i < length buf then Inr (buf ! i)
               else if i = length buf then Inr NUL
               else Inl (Undefined (ReadOutOfBounds i)))"

definition strlen :: "string \<Rightarrow> nat" where
  "strlen s = length (takeWhile (\<lambda>c. c \<noteq> NUL) s)"

text \<open>\<^verbatim>\<open>strcmp\<close> on two fixed arrays, given with all their bytes (terminator included):
  it stops at the first difference or at a common NUL, and leaves an array that holds
  neither.\<close>

fun strcmp :: "string \<Rightarrow> string \<Rightarrow> stop + int" where
  "strcmp (a # as) (b # bs) =
     (if a \<noteq> b then Inr (of_char a - of_char b)
      else if a = NUL then Inr 0
      else strcmp as bs)"
| "strcmp _ _ = Inl (Undefined Unterminated)"

text \<open>An \<^verbatim>\<open>int\<close> as the four bytes \<^verbatim>\<open>send(sock, &len, sizeof(len), 0)\<close> puts on the stream
  (two's complement, least significant byte first), and back.\<close>

definition int_bytes :: "int \<Rightarrow> string" where
  "int_bytes v = [to_char v, to_char (v div 256), to_char (v div 65536), to_char (v div 16777216)]"

definition bytes_int :: "string \<Rightarrow> int" where
  "bytes_int bs =
     (let u = of_char (bs ! 0) + 256 * of_char (bs ! 1) + 65536 * of_char (bs ! 2)
              + 16777216 * of_char (bs ! 3)
      in if u < 2147483648 then u else u - 4294967296)"

subsection \<open>The alphabet\<close>

text \<open>The symbol table of \<^verbatim>\<open>keygen.c\<close>: \<^verbatim>\<open>"ABCDEFGHIJKLMNOPQRSTUVWXYZ "[rand() % 27]\<close>.\<close>

definition Alphabet :: "char set" where
  "Alphabet = set ''ABCDEFGHIJKLMNOPQRSTUVWXYZ ''"

definition valid :: "string \<Rightarrow> bool" where
  "valid s = (\<forall>c \<in> set s. c \<in> Alphabet)"

subsection \<open>The cipher transform (\<^verbatim>\<open>handleOtpComm\<close>, \<^verbatim>\<open>enc_server.c\<close>)\<close>

text \<open>\<^verbatim>\<open>c == ' ' ? 26 : c - 'A'\<close>, the expression of both \<^verbatim>\<open>txtVal\<close> and \<^verbatim>\<open>keyVal\<close>.\<close>

definition rank :: "char \<Rightarrow> int" where
  "rank c = (if c = CHR '' '' then 26 else sc c - sc CHR ''A'')"

text \<open>\<^verbatim>\<open>encVal == 26 ? ' ' : encVal + 'A'\<close>, stored into \<^verbatim>\<open>result[i]\<close>.\<close>

definition symbol :: "int \<Rightarrow> char" where
  "symbol v = (if v = 26 then CHR '' '' else to_char (v + sc CHR ''A''))"

function enc_loop :: "string \<Rightarrow> string \<Rightarrow> nat \<Rightarrow> nat \<Rightarrow> string \<Rightarrow> stop + string" where
  "enc_loop text key len i result =
     (if i < len then
        (case rd text i of Inl e \<Rightarrow> Inl e | Inr tc \<Rightarrow>
         (case rd key i of Inl e \<Rightarrow> Inl e | Inr kc \<Rightarrow>
            (let txtVal = rank tc;
                 keyVal = rank kc;
                 encVal = c_rem (txtVal + keyVal) 27
             in enc_loop text key len (i + 1) (result @ [symbol encVal]))))
      else Inr result)"
  by pat_completeness auto
termination
  by (relation "measure (\<lambda>(text, key, len, i, result). len - i)") auto

declare enc_loop.simps [simp del]

text \<open>Lines 165 to 175 of \<^verbatim>\<open>handleOtpComm\<close>: the length of the text, then the loop.\<close>

definition encrypt :: "string \<Rightarrow> string \<Rightarrow> stop + string" where
  "encrypt text key = (let len = strlen text in enc_loop text key len 0 [])"

text \<open>
  Modelled from the spec: the decryption server (\<^verbatim>\<open>dec_server.c\<close>) is not among the
  sources. The spec gives its transform as the loop of the encryption server with
  \<open>result_rank = (t - k + 27) mod 27\<close>.
\<close>

function dec_loop :: "string \<Rightarrow> string \<Rightarrow> nat \<Rightarrow> nat \<Rightarrow> string \<Rightarrow> stop + string" where
  "dec_loop text key len i result =
     (if i < len then
        (case rd text i of Inl e \<Rightarrow> Inl e | Inr tc \<Rightarrow>
         (case rd key i of Inl e \<Rightarrow> Inl e | Inr kc \<Rightarrow>
            (let txtVal = rank tc;
                 keyVal = rank kc;
                 decVal = c_rem (txtVal - keyVal + 27) 27
             in dec_loop text key len (i + 1) (result @ [symbol decVal]))))
      else Inr result)"
  by pat_completeness auto
termination
  by (relation "measure (\<lambda>(text, key, len, i, result). len - i)") auto

declare dec_loop.simps [simp del]

text \<open>Modelled from the spec: decryption of a text, as \<open>encrypt\<close> with the loop above.\<close>

definition decrypt :: "string \<Rightarrow> string \<Rightarrow> stop + string" where
  "decrypt text key = (let len = strlen text in dec_loop text key len 0 [])"

datatype direction = ENCRYPT | DECRYPT

fun transform :: "string \<Rightarrow> string \<Rightarrow> direction \<Rightarrow> stop + string" where
  "transform text key ENCRYPT = encrypt text key"
| "transform text key DECRYPT = decrypt text key"

text \<open>The byte an in-bounds read of a buffer finds, and the symbol one round of the
  encryption loop stores.\<close>

definition byte_at :: "string \<Rightarrow> nat \<Rightarrow> char" where
  "byte_at buf i = (if i < length buf then buf ! i else NUL)"

definition enc_char :: "char \<Rightarrow> char \<Rightarrow> char" where
  "enc_char tc kc = symbol (c_rem (rank tc + rank kc) 27)"

text \<open>Modelled from the spec: the symbol one round of the decryption loop stores
  (\<^verbatim>\<open>dec_server.c\<close> is not among the sources).\<close>

definition dec_char :: "char \<Rightarrow> char \<Rightarrow> char" where
  "dec_char tc kc = symbol (c_rem (rank tc - rank kc + 27) 27)"

subsection \<open>The operating system, as one process sees it\<close>

text \<open>
  What the environment does is data of the model. \<open>inbox\<close> is what the successive
  \<^verbatim>\<open>recv\<close> calls on the connection find: bytes that have arrived, or a failure; when it
  is empty the peer has closed the connection, and \<^verbatim>\<open>recv\<close> returns 0. \<open>sendq\<close> is how
  the successive \<^verbatim>\<open>send\<close> calls fare: \<open>Accept n\<close> takes at most \<open>n\<close> bytes of the
  request (a partial write), \<open>SendError\<close> fails; when it is empty every request is taken
  whole. \<open>wire\<close> collects the bytes the process has put on the stream, \<open>calls\<close> the
  network calls it has made, oldest first.
\<close>

datatype recv_ev = Deliver string | RecvError

datatype send_ev = Accept nat | SendError

datatype syscall = Sys_socket | Sys_gethostbyname | Sys_connect | Sys_send string | Sys_recv nat | Sys_close

record world =
  files :: "string \<Rightarrow> string option"
  mem_limit :: nat
  socket_fails :: bool
  host_unknown :: bool
  connect_fails :: bool
  inbox :: "recv_ev list"
  sendq :: "send_ev list"
  wire :: string
  calls :: "syscall list"

definition malloc_ok :: "world \<Rightarrow> nat \<Rightarrow> bool" where
  "malloc_ok w n = (n \<le> mem_limit w)"

definition recv :: "world \<Rightarrow> nat \<Rightarrow> (int \<times> string) \<times> world" where
  "recv w n =
     (let w' = w\<lparr>calls := calls w @ [Sys_recv n]\<rparr> in
      case inbox w of
        [] \<Rightarrow> ((0, []), w')
      | RecvError # rest \<Rightarrow> ((- 1, []), w'\<lparr>inbox := rest\<rparr>)
      | Deliver d # rest \<Rightarrow>
          ((int (length (take n d)), take n d),
           w'\<lparr>inbox := (if drop n d = [] then rest else Deliver (drop n d) # rest)\<rparr>))"

definition send :: "world \<Rightarrow> string \<Rightarrow> int \<times> world" where
  "send w bytes =
     (let w' = w\<lparr>calls := calls w @ [Sys_send bytes]\<rparr> in
      case sendq w of
        [] \<Rightarrow> (int (length bytes), w'\<lparr>wire := wire w @ bytes\<rparr>)
      | SendError # rest \<Rightarrow> (- 1, w'\<lparr>sendq := rest\<rparr>)
      | Accept n # rest \<Rightarrow>
          (int (length (take n bytes)), w'\<lparr>sendq := rest, wire := wire w @ take n bytes\<rparr>))"

definition close :: "world \<Rightarrow> world" where
  "close w = w\<lparr>calls := calls w @ [Sys_close]\<rparr>"

text \<open>An environment in which nothing has happened yet and nothing fails: no file, no
  pending input, a peer that has closed.\<close>

definition idle :: world where
  "idle = \<lparr>files = (\<lambda>p. None), mem_limit = 2 ^ 32, socket_fails = False, host_unknown = False,
            connect_fails = False, inbox = [], sendq = [], wire = [], calls = []\<rparr>"

subsection \<open>Framed transport (\<^verbatim>\<open>sendData\<close> and \<^verbatim>\<open>receive\<close>, the same in both programs)\<close>

definition BUFFER_SIZE :: nat where
  "BUFFER_SIZE = 1000"

function send_loop :: "string \<Rightarrow> nat \<Rightarrow> nat \<Rightarrow> world \<Rightarrow> (stop + unit) \<times> world" where
  "send_loop data len i w =
     (if i < len then
        (let remaining = len - i;
             charsSent = (if remaining < BUFFER_SIZE then remaining else BUFFER_SIZE)
         in case send w (take charsSent (drop i data)) of (r, w') \<Rightarrow>
              if r < 0 then (Inl (Error 1 ''Unable to write to socket'' []), w')
              else send_loop data len (i + charsSent) w')
      else (Inr (), w))"
  by pat_completeness auto
termination
  by (relation "measure (\<lambda>(data, len, i, w). len - i)") (auto simp: BUFFER_SIZE_def)

declare send_loop.simps [simp del]

definition sendData :: "string \<Rightarrow> world \<Rightarrow> (stop + unit) \<times> world" where
  "sendData data w =
     (let len = strlen data in
      case send w (int_bytes (int len)) of (r, w1) \<Rightarrow>
        if r < 0 then (Inl (Error 1 ''Unable to write to socket'' []), w1)
        else send_loop data len 0 w1)"

partial_function (option) recv_loop ::
    "int \<Rightarrow> int \<Rightarrow> string \<Rightarrow> world \<Rightarrow> ((stop + string) \<times> world) option" where
  "recv_loop len i result w =
     (if i < len then
        (let sz = (if len - i > int BUFFER_SIZE - 1 then int BUFFER_SIZE - 1 else len - i) in
         case recv w (nat sz) of ((charsRead, bytes), w') \<Rightarrow>
           if charsRead < 0 then Some (Inl (Error 1 ''Unable to read from socket'' []), w')
           else recv_loop len (i + charsRead) (result @ bytes) w')
      else Some (Inr result, w))"

text \<open>
  \<^verbatim>\<open>receive\<close>: the length is the four bytes of the first \<^verbatim>\<open>recv\<close> (a shorter read leaves
  \<^verbatim>\<open>len\<close> partly uninitialised), the buffer is \<^verbatim>\<open>malloc(len + 1)\<close>, and the terminator is
  written at \<^verbatim>\<open>result[len]\<close> after the loop.
\<close>

definition receive :: "world \<Rightarrow> ((stop + string) \<times> world) option" where
  "receive w =
     (case recv w 4 of ((r, bytes), w1) \<Rightarrow>
        if r < 0 then Some (Inl (Error 1 ''Unable to read from socket'' []), w1)
        else if length bytes < 4 then Some (Inl (Undefined Uninitialised), w1)
        else
          (let len = bytes_int bytes in
           if \<not> malloc_ok w1 (size_t (len + 1))
           then Some (Inl (Error 1 ''Unable to allocate memory'' []), w1)
           else
             (case recv_loop len 0 [] w1 of
                None \<Rightarrow> None
              | Some (Inl e, w2) \<Rightarrow> Some (Inl e, w2)
              | Some (Inr result, w2) \<Rightarrow>
                  if len < 0 then Some (Inl (Undefined WriteOutOfBounds), w2)
                  else Some (Inr result, w2))))"

subsection \<open>Protocol handshake (\<^verbatim>\<open>validate\<close>)\<close>

text \<open>\<^verbatim>\<open>enc_server.c\<close>: receive the peer's tag into the zeroed array \<^verbatim>\<open>client[4]\<close>, send
  the four bytes of \<^verbatim>\<open>server[4] = "enc"\<close>, then compare.\<close>

definition validate_server :: "world \<Rightarrow> (stop + unit) \<times> world" where
  "validate_server w =
     (let server = ''enc'' @ [NUL] in
      case recv w 4 of ((r, bytes), w1) \<Rightarrow>
        (let client = bytes @ drop (length bytes) (replicate 4 NUL) in
         if r < 0 then (Inl (Error 1 ''Unable to read from socket'' []), w1)
         else
           (case send w1 server of (r2, w2) \<Rightarrow>
              if r2 < 0 then (Inl (Error 1 ''Unable to write to socket'' []), w2)
              else
                (case strcmp client server of
                   Inl e \<Rightarrow> (Inl e, w2)
                 | Inr d \<Rightarrow>
                     if d \<noteq> 0 then (Inl (Error 2 ''Client not enc_client'' []), close w2)
                     else (Inr (), w2)))))"

text \<open>\<^verbatim>\<open>dec_client.c\<close>: send the four bytes of \<^verbatim>\<open>client[4] = "dec"\<close>, receive the peer's
  tag into the zeroed array \<^verbatim>\<open>server[4]\<close>, then compare.\<close>

definition validate_client :: "world \<Rightarrow> (stop + unit) \<times> world" where
  "validate_client w =
     (let client = ''dec'' @ [NUL] in
      case send w client of (r, w1) \<Rightarrow>
        if r < 0 then (Inl (Error 1 ''Unable to write to socket'' []), w1)
        else
          (case recv w1 4 of ((r2, bytes), w2) \<Rightarrow>
             (let server = bytes @ drop (length bytes) (replicate 4 NUL) in
              if r2 < 0 then (Inl (Error 1 ''Unable to read from socket'' []), w2)
              else
                (case strcmp client server of
                   Inl e \<Rightarrow> (Inl e, w2)
                 | Inr d \<Rightarrow>
                     if d \<noteq> 0 then (Inl (Error 2 ''Server not dec_server'' []), close w2)
                     else (Inr (), w2)))))"

subsection \<open>The server's worker (\<^verbatim>\<open>enc_server.c\<close>)\<close>

text \<open>\<^verbatim>\<open>handleOtpComm\<close>. The result buffer \<^verbatim>\<open>malloc(len + 1)\<close> is used unchecked.\<close>

definition handleOtpComm :: "world \<Rightarrow> ((stop + unit) \<times> world) option" where
  "handleOtpComm w =
     (case receive w of
        None \<Rightarrow> None
      | Some (Inl e, w1) \<Rightarrow> Some (Inl e, w1)
      | Some (Inr text, w1) \<Rightarrow>
          (case receive w1 of
             None \<Rightarrow> None
           | Some (Inl e, w2) \<Rightarrow> Some (Inl e, w2)
           | Some (Inr key, w2) \<Rightarrow>
               if \<not> malloc_ok w2 (strlen text + 1) then Some (Inl (Undefined NullPointer), w2)
               else
                 (case encrypt text key of
                    Inl e \<Rightarrow> Some (Inl e, w2)
                  | Inr result \<Rightarrow>
                      (case sendData result w2 of
                         (Inl e, w3) \<Rightarrow> Some (Inl e, w3)
                       | (Inr u, w3) \<Rightarrow> Some (Inr (), close w3)))))"

text \<open>The child branch of \<^verbatim>\<open>main\<close> after \<^verbatim>\<open>fork\<close>: \<^verbatim>\<open>validate(sock); handleOtpComm(sock);
  exit(0)\<close>. A returned value is the exit status of \<^verbatim>\<open>exit(0)\<close>.\<close>

definition child :: "world \<Rightarrow> ((stop + int) \<times> world) option" where
  "child w =
     (case validate_server w of
        (Inl e, w1) \<Rightarrow> Some (Inl e, w1)
      | (Inr u, w1) \<Rightarrow>
          (case handleOtpComm w1 of
             None \<Rightarrow> None
           | Some (Inl e, w2) \<Rightarrow> Some (Inl e, w2)
           | Some (Inr u', w2) \<Rightarrow> Some (Inr 0, w2)))"

text \<open>The argument check that opens \<^verbatim>\<open>main\<close> of \<^verbatim>\<open>enc_server.c\<close>. With no \<^verbatim>\<open>argv[0]\<close>
  the message formats a null pointer.\<close>

definition server_usage :: "string list \<Rightarrow> stop + unit" where
  "server_usage argv =
     (if length argv < 2
      then (case argv of
              [] \<Rightarrow> Inl (Undefined NullPointer)
            | a0 # _ \<Rightarrow> Inl (Error 1 ''USAGE: %s port\<newline>'' [S a0]))
      else Inr ())"

subsection \<open>The client (\<^verbatim>\<open>dec_client.c\<close>)\<close>

text \<open>\<^verbatim>\<open>fgetc\<close> stored into a \<^verbatim>\<open>char\<close>: the next byte of the file, or \<^verbatim>\<open>EOF\<close> (-1) cut to a
  byte.\<close>

definition fgetc :: "string \<Rightarrow> nat \<Rightarrow> char" where
  "fgetc content pos = (if pos < length content then content ! pos else to_char (- 1))"

text \<open>The test of \<^verbatim>\<open>stringFromFile\<close>: \<^verbatim>\<open>(c < 'A' || c > 'Z') && c != ' '\<close>.\<close>

definition invalid_char :: "char \<Rightarrow> bool" where
  "invalid_char c = ((sc c < sc CHR ''A'' \<or> sc c > sc CHR ''Z'') \<and> c \<noteq> CHR '' '')"

function read_loop :: "string \<Rightarrow> string \<Rightarrow> nat \<Rightarrow> nat \<Rightarrow> string \<Rightarrow> stop + string" where
  "read_loop path content len i buffer =
     (if i < len then
        (let c = fgetc content i in
         if invalid_char c
         then Inl (Error 0 ''Invalid character found in file %s: %c, %d'' [S path, C c, D (sc c)])
         else read_loop path content len (i + 1) (buffer @ [c]))
      else Inr buffer)"
  by pat_completeness auto
termination
  by (relation "measure (\<lambda>(path, content, len, i, buffer). len - i)") auto

declare read_loop.simps [simp del]

text \<open>\<^verbatim>\<open>stringFromFile\<close>: \<^verbatim>\<open>len = ftell(file) - 1\<close> as a \<^verbatim>\<open>size_t\<close>, then \<^verbatim>\<open>len\<close> bytes are
  read and checked.\<close>

definition stringFromFile :: "world \<Rightarrow> string \<Rightarrow> stop + string" where
  "stringFromFile w path =
     (case files w path of
        None \<Rightarrow> Inl (Error 0 ''Unable to open file: %s'' [S path])
      | Some content \<Rightarrow>
          (let len = size_t (int (length content) - 1) in
           if \<not> malloc_ok w (size_t (int len + 1)) then Inl (Error 0 ''Unable to allocate memory'' [])
           else read_loop path content len 0 []))"

text \<open>\<^verbatim>\<open>main\<close> of the client. A returned value is what it printed before \<^verbatim>\<open>return 0\<close>.\<close>

definition main_client :: "string list \<Rightarrow> world \<Rightarrow> ((stop + string) \<times> world) option" where
  "main_client argv w =
     (if length argv < 4
      then (case argv of
              [] \<Rightarrow> Some (Inl (Undefined NullPointer), w)
            | a0 # _ \<Rightarrow> Some (Inl (Error 0 ''USAGE: %s port\<newline>'' [S a0]), w))
      else
        (case stringFromFile w (argv ! 1) of
           Inl e \<Rightarrow> Some (Inl e, w)
         | Inr text \<Rightarrow>
             (case stringFromFile w (argv ! 2) of
                Inl e \<Rightarrow> Some (Inl e, w)
              | Inr key \<Rightarrow>
                  if strlen text > strlen key then Some (Inl (Error 0 ''Key shorter than text'' []), w)
                  else
                    (let w1 = w\<lparr>calls := calls w @ [Sys_socket]\<rparr> in
                     if socket_fails w1 then Some (Inl (Error 0 ''Unable to open socket'' []), w1)
                     else
                       (let w2 = w1\<lparr>calls := calls w1 @ [Sys_gethostbyname]\<rparr> in
                        if host_unknown w2 then Some (Inl (Error 0 ''No such host\<newline>'' []), w2)
                        else
                          (let w3 = w2\<lparr>calls := calls w2 @ [Sys_connect]\<rparr> in
                           if connect_fails w3
                           then Some (Inl (Error 0 ''Unable to connect to server'' []), w3)
                           else
                             (case validate_client w3 of
                                (Inl e, w4) \<Rightarrow> Some (Inl e, w4)
                              | (Inr u, w4) \<Rightarrow>
                                  (case sendData text w4 of
                                     (Inl e, w5) \<Rightarrow> Some (Inl e, w5)
                                   | (Inr u1, w5) \<Rightarrow>
                                       (case sendData key w5 of
                                          (Inl e, w6) \<Rightarrow> Some (Inl e, w6)
                                        | (Inr u2, w6) \<Rightarrow>
                                            (case receive w6 of
                                               None \<Rightarrow> None
                                             | Some (Inl e, w7) \<Rightarrow> Some (Inl e, w7)
                                             | Some (Inr out, w7) \<Rightarrow>
                                                 Some (Inr (takeWhile (\<lambda>c. c \<noteq> NUL) out @ ''\<newline>''),
                                                       close w7)))))))))))"

text \<open>The exit status of a finished process, when C defines one.\<close>

fun exit_status :: "stop + 'a \<Rightarrow> int option" where
  "exit_status (Inr v) = Some 0"
| "exit_status (Inl (Error c fmt args)) = Some c"
| "exit_status (Inl (Undefined u)) = None"

text \<open>The exit status of a run: none when the process never finishes.\<close>

fun run_status :: "((stop + 'a) \<times> world) option \<Rightarrow> int option" where
  "run_status None = None"
| "run_status (Some (r, w)) = exit_status r"



section \<open>The cipher transform\<close>

lemma rd_in: "i \<le> length buf \<Longrightarrow> rd buf i = Inr (byte_at buf i)"
  by (simp add: rd_def byte_at_def)

lemma rd_out: "length buf < i \<Longrightarrow> rd buf i = Inl (Undefined (ReadOutOfBounds i))"
  by (simp add: rd_def)

lemma enc_loop_ok:
  "len \<le> length tx \<Longrightarrow> len \<le> Suc (length key) \<Longrightarrow> i \<le> len \<Longrightarrow>
   enc_loop tx key len i result =
     Inr (result @ map (\<lambda>j. enc_char (byte_at tx j) (byte_at key j)) [i..<len])"
proof (induction "len - i" arbitrary: i result)
  case 0
  then show ?case by (subst enc_loop.simps) simp
next
  case (Suc n)
  then have lt: "i < len" and n: "n = len - Suc i" by simp_all
  have step: "enc_loop tx key len i result =
      enc_loop tx key len (Suc i) (result @ [enc_char (byte_at tx i) (byte_at key i)])"
    using lt Suc.prems by (subst enc_loop.simps) (simp add: rd_in enc_char_def)
  have "[i..<len] = i # [Suc i..<len]" using lt by (simp add: upt_conv_Cons)
  then show ?case
    using Suc.hyps(1) [OF n] Suc.prems lt step by simp
qed

lemma enc_loop_fault:
  "len \<le> length tx \<Longrightarrow> Suc (length key) < len \<Longrightarrow> i \<le> Suc (length key) \<Longrightarrow>
   enc_loop tx key len i result = Inl (Undefined (ReadOutOfBounds (Suc (length key))))"
proof (induction "Suc (length key) - i" arbitrary: i result)
  case 0
  then have "i = Suc (length key)" by simp
  then show ?case using "0.prems"
    by (subst enc_loop.simps) (simp add: rd_in rd_out)
next
  case (Suc n)
  then have lt: "i \<le> length key" and n: "n = Suc (length key) - Suc i" by simp_all
  have step: "enc_loop tx key len i result =
      enc_loop tx key len (Suc i) (result @ [enc_char (byte_at tx i) (byte_at key i)])"
    using lt Suc.prems by (subst enc_loop.simps) (simp add: rd_in enc_char_def)
  show ?case using Suc.hyps(1) [OF n] Suc.prems lt step by simp
qed

lemma dec_loop_ok:
  "len \<le> length tx \<Longrightarrow> len \<le> Suc (length key) \<Longrightarrow> i \<le> len \<Longrightarrow>
   dec_loop tx key len i result =
     Inr (result @ map (\<lambda>j. dec_char (byte_at tx j) (byte_at key j)) [i..<len])"
proof (induction "len - i" arbitrary: i result)
  case 0
  then show ?case by (subst dec_loop.simps) simp
next
  case (Suc n)
  then have lt: "i < len" and n: "n = len - Suc i" by simp_all
  have step: "dec_loop tx key len i result =
      dec_loop tx key len (Suc i) (result @ [dec_char (byte_at tx i) (byte_at key i)])"
    using lt Suc.prems by (subst dec_loop.simps) (simp add: rd_in dec_char_def)
  have "[i..<len] = i # [Suc i..<len]" using lt by (simp add: upt_conv_Cons)
  then show ?case
    using Suc.hyps(1) [OF n] Suc.prems lt step by simp
qed

lemma strlen_le: "strlen s \<le> length s"
  by (simp add: strlen_def length_takeWhile_le)

lemma encrypt_eq:
  "encrypt tx key =
     (if strlen tx \<le> Suc (length key)
      then Inr (map (\<lambda>j. enc_char (byte_at tx j) (byte_at key j)) [0..<strlen tx])
      else Inl (Undefined (ReadOutOfBounds (Suc (length key)))))"
  using enc_loop_ok [of "strlen tx" tx key 0 "[]"]
        enc_loop_fault [of "strlen tx" tx key 0 "[]"] strlen_le [of tx]
  by (simp add: encrypt_def)

lemma decrypt_ok:
  "strlen tx \<le> Suc (length key) \<Longrightarrow>
   decrypt tx key = Inr (map (\<lambda>j. dec_char (byte_at tx j) (byte_at key j)) [0..<strlen tx])"
  using dec_loop_ok [of "strlen tx" tx key 0 "[]"] strlen_le [of tx]
  by (simp add: decrypt_def)

lemma NUL_notin_Alphabet: "NUL \<notin> Alphabet"
  by (simp add: Alphabet_def NUL_def)

lemma strlen_valid: "valid s \<Longrightarrow> strlen s = length s"
proof -
  assume "valid s"
  then have "\<forall>c \<in> set s. c \<noteq> NUL" using NUL_notin_Alphabet by (auto simp: valid_def)
  then have "takeWhile (\<lambda>c. c \<noteq> NUL) s = s" by (simp add: takeWhile_eq_all_conv)
  then show ?thesis unfolding strlen_def by (rule arg_cong)
qed

lemma rank_range: "c \<in> Alphabet \<Longrightarrow> 0 \<le> rank c \<and> rank c \<le> 26"
  unfolding Alphabet_def
  by (simp only: set_simps, elim insertE emptyE; simp add: rank_def sc_def)

lemma symbol_Alphabet: "0 \<le> v \<Longrightarrow> v \<le> 26 \<Longrightarrow> symbol v \<in> Alphabet"
proof -
  assume "0 \<le> v" "v \<le> 26"
  then have "v \<in> {0..26}" by simp
  also have "{0..26::int} = set [0..26]" by simp
  finally have "v \<in> set [0..26]" .
  then have "v \<in> {0,1,2,3,4,5,6,7,8,9,10,11,12,13,14,15,16,17,18,19,20,21,22,23,24,25,26}"
    by (simp add: upto.simps)
  then show ?thesis
    by (elim insertE emptyE; simp add: symbol_def Alphabet_def sc_def to_char_def char_of_def)
qed

lemma rank_symbol: "0 \<le> v \<Longrightarrow> v \<le> 26 \<Longrightarrow> rank (symbol v) = v"
proof -
  assume v: "0 \<le> v" "v \<le> 26"
  show ?thesis
  proof (cases "v = 26")
    case True then show ?thesis by (simp add: symbol_def rank_def)
  next
    case False
    have "(of_char (char_of (v + 65)) :: int) = (v + 65) mod 256" by (rule of_char_of)
    also have "\<dots> = v + 65" using v by simp
    finally have oc: "(of_char (char_of (v + 65)) :: int) = v + 65" .
    have ne: "char_of (v + 65) \<noteq> CHR '' ''"
    proof
      assume "char_of (v + 65) = CHR '' ''"
      then have "(of_char (char_of (v + 65)) :: int) = of_char CHR '' ''" by simp
      then show False using oc v by simp
    qed
    show ?thesis using False oc ne v by (simp add: symbol_def rank_def sc_def to_char_def)
  qed
qed

lemma symbol_rank: "c \<in> Alphabet \<Longrightarrow> symbol (rank c) = c"
  unfolding Alphabet_def
  by (simp only: set_simps, elim insertE emptyE; simp add: rank_def symbol_def sc_def to_char_def char_of_def)

lemma c_rem_nonneg: "0 \<le> a \<Longrightarrow> 0 < b \<Longrightarrow> c_rem a b = a mod b"
proof (cases "a = 0")
  case True
  then show ?thesis by (simp add: c_rem_def)
next
  case False
  assume "0 \<le> a" "0 < b"
  with False have "sgn a = 1" "\<bar>a\<bar> = a" "\<bar>b\<bar> = b" by simp_all
  then show ?thesis by (simp add: c_rem_def)
qed

lemma mod27_range: "0 \<le> (v::int) mod 27 \<and> v mod 27 \<le> 26"
proof -
  have "0 \<le> v mod 27" by simp
  moreover have "v mod 27 < 27" by simp
  ultimately show ?thesis by linarith
qed

lemma enc_rank:
  assumes "0 \<le> t" "t \<le> 26" "0 \<le> k" "k \<le> 26"
  shows "c_rem (t + k) 27 = (t + k) mod 27"
  using assms by (simp add: c_rem_nonneg)

lemma dec_rank:
  assumes "0 \<le> t" "t \<le> 26" "0 \<le> k" "k \<le> 26"
  shows "c_rem (t - k + 27) 27 = (t - k + 27) mod 27"
  using assms by (simp add: c_rem_nonneg)

lemma round_trip_rank:
  assumes "0 \<le> t" "t \<le> 26" "0 \<le> k" "k \<le> 26"
  shows "((t + k) mod 27 - k + 27) mod 27 = (t::int)"
proof (cases "t + k < 27")
  case True
  then have "(t + k) mod 27 = t + k" using assms by simp
  then show ?thesis using assms by simp
next
  case False
  have a: "(t + k - 27) mod 27 = t + k - 27"
    using False assms by (intro mod_pos_pos_trivial) linarith+
  have b: "(t + k - 27 + 27) mod 27 = (t + k - 27) mod 27" by (rule mod_add_self2)
  have c: "t + k - 27 + 27 = t + k" by simp
  have "(t + k) mod 27 = t + k - 27" using b a unfolding c by (rule trans)
  then show ?thesis using assms by simp
qed

lemma enc_char_Alphabet:
  "tc \<in> Alphabet \<Longrightarrow> kc \<in> Alphabet \<Longrightarrow>
   enc_char tc kc \<in> Alphabet \<and> rank (enc_char tc kc) = (rank tc + rank kc) mod 27"
  using rank_range [of tc] rank_range [of kc]
  using mod27_range [of "rank tc + rank kc"]
  by (simp add: enc_char_def enc_rank symbol_Alphabet rank_symbol)

lemma dec_char_Alphabet:
  "tc \<in> Alphabet \<Longrightarrow> kc \<in> Alphabet \<Longrightarrow>
   dec_char tc kc \<in> Alphabet \<and> rank (dec_char tc kc) = (rank tc - rank kc + 27) mod 27"
  using rank_range [of tc] rank_range [of kc]
  using mod27_range [of "rank tc - rank kc + 27"]
  by (simp add: dec_char_def dec_rank symbol_Alphabet rank_symbol)

lemma dec_enc_char:
  "tc \<in> Alphabet \<Longrightarrow> kc \<in> Alphabet \<Longrightarrow> dec_char (enc_char tc kc) kc = tc"
proof -
  assume a: "tc \<in> Alphabet" "kc \<in> Alphabet"
  have r: "0 \<le> rank tc" "rank tc \<le> 26" "0 \<le> rank kc" "rank kc \<le> 26"
    using rank_range [OF a(1)] rank_range [OF a(2)] by simp_all
  have e: "rank (enc_char tc kc) = (rank tc + rank kc) mod 27"
    using enc_char_Alphabet [OF a] by simp
  have "0 \<le> (rank tc + rank kc) mod 27 - rank kc + 27"
    using r mod27_range [of "rank tc + rank kc"] by linarith
  then have "c_rem (rank (enc_char tc kc) - rank kc + 27) 27 = rank tc"
    unfolding e using round_trip_rank [OF r] by (simp add: c_rem_nonneg)
  then show ?thesis using symbol_rank [OF a(1)] by (simp add: dec_char_def)
qed

lemma valid_nth: "valid s \<Longrightarrow> i < length s \<Longrightarrow> s ! i \<in> Alphabet"
  by (simp add: valid_def)

lemma map_byte_at:
  "n \<le> length T \<Longrightarrow> n \<le> length K \<Longrightarrow>
   map (\<lambda>j. f (byte_at T j) (byte_at K j)) [0..<n] = map (\<lambda>j. f (T ! j) (K ! j)) [0..<n]"
  by (rule map_cong) (simp_all add: byte_at_def)

lemma encrypt_valid:
  assumes "valid T" "length T \<le> length K"
  shows "encrypt T K = Inr (map (\<lambda>j. enc_char (T ! j) (K ! j)) [0..<length T])"
proof -
  have "strlen T = length T" using assms(1) by (rule strlen_valid)
  then show ?thesis using assms(2) map_byte_at [of "length T" T K enc_char]
    by (simp add: encrypt_eq)
qed

lemma decrypt_valid:
  assumes "valid T" "length T \<le> length K"
  shows "decrypt T K = Inr (map (\<lambda>j. dec_char (T ! j) (K ! j)) [0..<length T])"
proof -
  have "strlen T = length T" using assms(1) by (rule strlen_valid)
  then show ?thesis using assms(2) map_byte_at [of "length T" T K dec_char]
    by (simp add: decrypt_ok)
qed

lemma valid_enc:
  assumes "valid T" "valid K" "length T \<le> length K"
  shows "valid (map (\<lambda>j. enc_char (T ! j) (K ! j)) [0..<length T])"
  unfolding valid_def
proof
  fix c assume "c \<in> set (map (\<lambda>j. enc_char (T ! j) (K ! j)) [0..<length T])"
  then obtain j where j: "j < length T" "c = enc_char (T ! j) (K ! j)" by auto
  then have "T ! j \<in> Alphabet" "K ! j \<in> Alphabet" using assms by (simp_all add: valid_nth)
  then show "c \<in> Alphabet" using j(2) enc_char_Alphabet by simp
qed

lemma valid_dec:
  assumes "valid T" "valid K" "length T \<le> length K"
  shows "valid (map (\<lambda>j. dec_char (T ! j) (K ! j)) [0..<length T])"
  unfolding valid_def
proof
  fix c assume "c \<in> set (map (\<lambda>j. dec_char (T ! j) (K ! j)) [0..<length T])"
  then obtain j where j: "j < length T" "c = dec_char (T ! j) (K ! j)" by auto
  then have "T ! j \<in> Alphabet" "K ! j \<in> Alphabet" using assms by (simp_all add: valid_nth)
  then show "c \<in> Alphabet" using j(2) dec_char_Alphabet by simp
qed

text \<open>
  Claim C1 (round trip). For every text \<open>T\<close> and key \<open>K\<close> over the 27-symbol alphabet with
  \<open>K\<close> at least as long as \<open>T\<close>, encrypting \<open>T\<close> under \<open>K\<close> returns a ciphertext, and
  decrypting that ciphertext under the same key gives \<open>T\<close> back. Encryption is the loop of
  \<^verbatim>\<open>enc_server.c\<close>; decryption is the loop the spec describes.
\<close>

theorem round_trip:
  assumes "valid T" "valid K" "length T \<le> length K"
  shows "\<exists>c. transform T K ENCRYPT = Inr c \<and> transform c K DECRYPT = Inr T"
proof -
  define c where "c = map (\<lambda>j. enc_char (T ! j) (K ! j)) [0..<length T]"
  have e: "encrypt T K = Inr c" unfolding c_def using assms(1,3) by (rule encrypt_valid)
  have vc: "valid c" unfolding c_def using assms by (rule valid_enc)
  have lc: "length c = length T" by (simp add: c_def)
  have nth: "\<And>j. j < length T \<Longrightarrow> c ! j = enc_char (T ! j) (K ! j)" by (simp add: c_def)
  have d: "decrypt c K = Inr (map (\<lambda>j. dec_char (c ! j) (K ! j)) [0..<length c])"
    using vc assms(3) lc by (intro decrypt_valid) simp_all
  have "map (\<lambda>j. dec_char (c ! j) (K ! j)) [0..<length c] = T"
  proof (rule nth_equalityI)
    show "length (map (\<lambda>j. dec_char (c ! j) (K ! j)) [0..<length c]) = length T"
      by (simp add: lc)
  next
    fix i assume "i < length (map (\<lambda>j. dec_char (c ! j) (K ! j)) [0..<length c])"
    then have i: "i < length T" by (simp add: lc)
    then have "T ! i \<in> Alphabet" "K ! i \<in> Alphabet" using assms by (simp_all add: valid_nth)
    then show "map (\<lambda>j. dec_char (c ! j) (K ! j)) [0..<length c] ! i = T ! i"
      using i by (simp add: lc nth dec_enc_char)
  qed
  with d e show ?thesis by simp
qed

theorem round_trip_witness:
  "valid ''HELLO'' \<and> valid ''WORLD'' \<and> transform ''HELLO'' ''WORLD'' ENCRYPT = Inr ''CSBWR''
   \<and> transform ''CSBWR'' ''WORLD'' DECRYPT = Inr ''HELLO''"
proof -
  have v: "valid ''HELLO''" "valid ''WORLD''" by (simp_all add: valid_def Alphabet_def)
  have l: "length ''HELLO'' \<le> length ''WORLD''" by simp
  have e: "transform ''HELLO'' ''WORLD'' ENCRYPT = Inr ''CSBWR''"
    by (simp add: encrypt_valid [OF v(1) l] enc_char_def rank_def symbol_def sc_def
        to_char_def c_rem_def char_of_def)
  from round_trip [OF v l] e show ?thesis using v by simp
qed

text \<open>
  Claim C2 (the encryption formula). For a text and a key over the alphabet, the key at
  least as long as the text, encryption returns a string of the text's length whose symbol
  at every position \<open>i\<close> has rank \<open>(t + k) mod 27\<close>, \<open>t\<close> and \<open>k\<close> the ranks of the text's and
  the key's symbols there. The ranks of \<open>A\<close> to \<open>Z\<close> are 0 to 25, the rank of the space is 26,
  and rank 26 is written back as the space. \<open>HELLO\<close> under \<open>WORLD\<close> is \<open>CSBWR\<close>.
\<close>

theorem encrypt_rank_sum:
  assumes "valid T" "valid K" "length T \<le> length K"
  shows "(\<exists>c. encrypt T K = Inr c \<and> length c = length T \<and>
            (\<forall>i<length T. rank (c ! i) = (rank (T ! i) + rank (K ! i)) mod 27 \<and>
                           c ! i = symbol ((rank (T ! i) + rank (K ! i)) mod 27)))
       \<and> map rank ''ABCDEFGHIJKLMNOPQRSTUVWXYZ '' =
           [0, 1, 2, 3, 4, 5, 6, 7, 8, 9, 10, 11, 12, 13, 14, 15, 16, 17, 18, 19, 20, 21, 22,
            23, 24, 25, 26]
       \<and> symbol 26 = CHR '' ''
       \<and> encrypt ''HELLO'' ''WORLD'' = Inr ''CSBWR''"
proof -
  define c where "c = map (\<lambda>j. enc_char (T ! j) (K ! j)) [0..<length T]"
  have e: "encrypt T K = Inr c" unfolding c_def using assms(1,3) by (rule encrypt_valid)
  have len: "length c = length T" by (simp add: c_def)
  have pos: "\<forall>i<length T. rank (c ! i) = (rank (T ! i) + rank (K ! i)) mod 27 \<and>
                           c ! i = symbol ((rank (T ! i) + rank (K ! i)) mod 27)"
  proof (intro allI impI)
    fix i assume i: "i < length T"
    then have a: "T ! i \<in> Alphabet" "K ! i \<in> Alphabet" using assms by (simp_all add: valid_nth)
    have r: "0 \<le> rank (T ! i)" "rank (T ! i) \<le> 26" "0 \<le> rank (K ! i)" "rank (K ! i) \<le> 26"
      using rank_range [OF a(1)] rank_range [OF a(2)] by simp_all
    have ci: "c ! i = enc_char (T ! i) (K ! i)" using i by (simp add: c_def)
    have sy: "enc_char (T ! i) (K ! i) = symbol ((rank (T ! i) + rank (K ! i)) mod 27)"
      using enc_rank [OF r] by (simp add: enc_char_def)
    have rk: "rank (enc_char (T ! i) (K ! i)) = (rank (T ! i) + rank (K ! i)) mod 27"
      using enc_char_Alphabet [OF a] by simp
    show "rank (c ! i) = (rank (T ! i) + rank (K ! i)) mod 27 \<and>
          c ! i = symbol ((rank (T ! i) + rank (K ! i)) mod 27)"
      unfolding ci using rk sy by (rule conjI)
  qed
  have ranks: "map rank ''ABCDEFGHIJKLMNOPQRSTUVWXYZ '' =
      [0, 1, 2, 3, 4, 5, 6, 7, 8, 9, 10, 11, 12, 13, 14, 15, 16, 17, 18, 19, 20, 21, 22,
       23, 24, 25, 26]"
    by (simp add: rank_def sc_def)
  have sp: "symbol 26 = CHR '' ''" by (simp add: symbol_def)
  have v: "valid ''HELLO''" by (simp add: valid_def Alphabet_def)
  have ex: "encrypt ''HELLO'' ''WORLD'' = Inr ''CSBWR''"
    by (simp add: encrypt_valid [OF v] enc_char_def rank_def symbol_def sc_def
        to_char_def c_rem_def char_of_def)
  from e len pos ranks sp ex show ?thesis by blast
qed

theorem encrypt_rank_sum_witness:
  "valid ''AZ '' \<and> valid ''BCD'' \<and> encrypt ''AZ '' ''BCD'' = Inr ''BAC''
   \<and> rank (''BAC'' ! 1) = (rank CHR ''Z'' + rank CHR ''C'') mod 27"
proof -
  have v: "valid ''AZ ''" "valid ''BCD''" by (simp_all add: valid_def Alphabet_def)
  have l: "length ''AZ '' \<le> length ''BCD''" by simp
  have ev: "encrypt ''AZ '' ''BCD'' = Inr ''BAC''"
    by (simp add: encrypt_valid [OF v(1) l] enc_char_def rank_def symbol_def sc_def
        to_char_def c_rem_def char_of_def)
  from encrypt_rank_sum [OF v l]
  obtain c where c: "encrypt ''AZ '' ''BCD'' = Inr c"
    "\<forall>i<length ''AZ ''. rank (c ! i) = (rank (''AZ '' ! i) + rank (''BCD'' ! i)) mod 27 \<and>
        c ! i = symbol ((rank (''AZ '' ! i) + rank (''BCD'' ! i)) mod 27)"
    by blast
  from c(1) ev have "c = ''BAC''" by simp
  with c(2) have "1 < length ''AZ '' \<longrightarrow>
      rank (''BAC'' ! 1) = (rank (''AZ '' ! 1) + rank (''BCD'' ! 1)) mod 27"
    by blast
  then have "rank (''BAC'' ! 1) = (rank CHR ''Z'' + rank CHR ''C'') mod 27" by simp
  with v ev show ?thesis by simp
qed

text \<open>
  Claim C9 (closure and length). For a text and a key over the alphabet, the key at least
  as long as the text, and either direction, the transform returns a string over the
  alphabet that is as long as the text.
\<close>

theorem transform_closed:
  assumes "valid T" "valid K" "length T \<le> length K"
  shows "\<exists>c. transform T K dir = Inr c \<and> valid c \<and> length c = length T"
proof (cases dir)
  case ENCRYPT
  then show ?thesis
    using encrypt_valid [OF assms(1,3)] valid_enc [OF assms] by simp
next
  case DECRYPT
  then show ?thesis
    using decrypt_valid [OF assms(1,3)] valid_dec [OF assms] by simp
qed

theorem transform_closed_witness:
  "valid ''CSBWR'' \<and> valid ''WORLD'' \<and>
   (\<exists>c. transform ''CSBWR'' ''WORLD'' DECRYPT = Inr c \<and> valid c \<and> length c = length ''CSBWR'')"
proof -
  have v: "valid ''CSBWR''" "valid ''WORLD''" by (simp_all add: valid_def Alphabet_def)
  have l: "length ''CSBWR'' \<le> length ''WORLD''" by simp
  from transform_closed [OF v l, of DECRYPT] v show ?thesis by simp
qed

section \<open>Framed transport\<close>

lemma send_loop_done: "\<not> i < len \<Longrightarrow> send_loop data len i w = (Inr (), w)"
  by (subst send_loop.simps) simp

lemma send_loop_step:
  "i < len \<Longrightarrow> send_loop data len i w =
     (let remaining = len - i;
          charsSent = (if remaining < BUFFER_SIZE then remaining else BUFFER_SIZE)
      in case send w (take charsSent (drop i data)) of (r, w') \<Rightarrow>
           if r < 0 then (Inl (Error 1 ''Unable to write to socket'' []), w')
           else send_loop data len (i + charsSent) w')"
  by (subst send_loop.simps) simp

lemma recv_loop_done: "\<not> i < len \<Longrightarrow> recv_loop len i result w = Some (Inr result, w)"
  by (subst recv_loop.simps) simp

lemma recv_loop_step:
  "i < len \<Longrightarrow> inbox w \<noteq> [] \<Longrightarrow> recv_loop len i result w =
     (let sz = (if len - i > int BUFFER_SIZE - 1 then int BUFFER_SIZE - 1 else len - i) in
      case recv w (nat sz) of ((charsRead, bytes), w') \<Rightarrow>
        if charsRead < 0 then Some (Inl (Error 1 ''Unable to read from socket'' []), w')
        else recv_loop len (i + charsRead) (result @ bytes) w')"
  by (subst recv_loop.simps) simp

text \<open>Once the peer has closed, \<^verbatim>\<open>recv\<close> returns 0 and changes nothing but the log of calls.\<close>

lemma recv_closed:
  "inbox w = [] \<Longrightarrow> recv w n = ((0, []), w\<lparr>calls := calls w @ [Sys_recv n]\<rparr>)"
  by (simp add: recv_def)

text \<open>With bytes still missing and the peer gone, the loop of \<^verbatim>\<open>receive\<close> has no result:
  every round reads nothing and leaves \<^verbatim>\<open>i\<close> where it was.\<close>

lemma recv_loop_Some_open:
  assumes "recv_loop len i result w = Some y"
  shows "\<not> (inbox w = [] \<and> i < len)"
proof (rule recv_loop.raw_induct
    [where P = "\<lambda>len i result w y. \<not> (inbox w = [] \<and> i < len)", OF _ assms])
  fix f :: "int \<Rightarrow> int \<Rightarrow> string \<Rightarrow> world \<Rightarrow> ((stop + string) \<times> world) option"
  fix len i :: int and result :: string and w :: world and y
  assume IH: "\<And>len i result w y. f len i result w = Some y \<Longrightarrow> \<not> (inbox w = [] \<and> i < len)"
  assume eq: "(if i < len then
        (let sz = (if len - i > int BUFFER_SIZE - 1 then int BUFFER_SIZE - 1 else len - i) in
         case recv w (nat sz) of ((charsRead, bytes), w') \<Rightarrow>
           if charsRead < 0 then Some (Inl (Error 1 ''Unable to read from socket'' []), w')
           else f len (i + charsRead) (result @ bytes) w')
      else Some (Inr result, w)) = Some y"
  show "\<not> (inbox w = [] \<and> i < len)"
  proof
    assume c: "inbox w = [] \<and> i < len"
    define sz where "sz = (if len - i > int BUFFER_SIZE - 1 then int BUFFER_SIZE - 1 else len - i)"
    from eq c have "f len i result (w\<lparr>calls := calls w @ [Sys_recv (nat sz)]\<rparr>) = Some y"
      by (simp add: recv_closed Let_def sz_def)
    from IH [OF this] c show False by simp
  qed
qed

lemma recv_loop_closed:
  "inbox w = [] \<Longrightarrow> i < len \<Longrightarrow> recv_loop len i result w = None"
  using recv_loop_Some_open [of len i result w] by (cases "recv_loop len i result w") auto

text \<open>
  Claim C3 (\<^verbatim>\<open>receive\<close>). The length is read first and the payload in reads of at most 999
  bytes, and a failed read exits with status 1: a message of 1500 bytes is read as 999 and 501.
  A read of zero bytes is not an error, though. When the peer announces five bytes, delivers
  three and closes, \<^verbatim>\<open>recv\<close> returns 0 ever after, the loop adds 0 to \<^verbatim>\<open>i\<close>, and \<^verbatim>\<open>receive\<close>
  neither returns nor exits.
\<close>

theorem receive_premature_close:
  "receive (idle\<lparr>inbox := [Deliver (int_bytes 5), Deliver ''ABC'']\<rparr>) = None
   \<and> receive (idle\<lparr>inbox := [Deliver (int_bytes 5), Deliver ''ABC'', RecvError]\<rparr>)
       = Some (Inl (Error 1 ''Unable to read from socket'' []),
               idle\<lparr>calls := [Sys_recv 4, Sys_recv 5, Sys_recv 2]\<rparr>)
   \<and> receive (idle\<lparr>inbox := [Deliver (int_bytes 1500), Deliver (replicate 1500 CHR ''A'')]\<rparr>)
       = Some (Inr (replicate 1500 CHR ''A''),
               idle\<lparr>calls := [Sys_recv 4, Sys_recv 999, Sys_recv 501]\<rparr>)"
proof (intro conjI)
  show "receive (idle\<lparr>inbox := [Deliver (int_bytes 5), Deliver ''ABC'']\<rparr>) = None"
    by (simp add: receive_def recv_def idle_def recv_loop_step recv_loop_closed BUFFER_SIZE_def
        int_bytes_def bytes_int_def to_char_def char_of_def malloc_ok_def size_t_def Let_def)
next
  show "receive (idle\<lparr>inbox := [Deliver (int_bytes 5), Deliver ''ABC'', RecvError]\<rparr>)
       = Some (Inl (Error 1 ''Unable to read from socket'' []),
               idle\<lparr>calls := [Sys_recv 4, Sys_recv 5, Sys_recv 2]\<rparr>)"
    by (simp add: receive_def recv_def idle_def recv_loop_step BUFFER_SIZE_def
        int_bytes_def bytes_int_def to_char_def char_of_def malloc_ok_def size_t_def Let_def)
next
  show "receive (idle\<lparr>inbox := [Deliver (int_bytes 1500), Deliver (replicate 1500 CHR ''A'')]\<rparr>)
       = Some (Inr (replicate 1500 CHR ''A''),
               idle\<lparr>calls := [Sys_recv 4, Sys_recv 999, Sys_recv 501]\<rparr>)"
    by (simp add: receive_def recv_def idle_def recv_loop_step recv_loop_done BUFFER_SIZE_def
        int_bytes_def bytes_int_def to_char_def char_of_def malloc_ok_def size_t_def Let_def
        replicate_add [symmetric])
qed

text \<open>
  Claim C4 (\<^verbatim>\<open>sendData\<close>). The length goes first and the payload follows in requests of at
  most 1000 bytes: 2500 bytes are sent as 1000, 1000 and 500. The value \<^verbatim>\<open>send\<close> returns is
  only tested for an error, though, and \<^verbatim>\<open>i\<close> advances by the size of the request. When the
  kernel takes three of the five bytes of \<open>HELLO\<close>, \<^verbatim>\<open>sendData\<close> returns normally with only
  \<open>HEL\<close> on the stream.
\<close>

theorem sendData_partial_write:
  "sendData ''HELLO'' (idle\<lparr>sendq := [Accept 4, Accept 3]\<rparr>)
     = (Inr (), idle\<lparr>wire := int_bytes 5 @ ''HEL'',
                      calls := [Sys_send (int_bytes 5), Sys_send ''HELLO'']\<rparr>)
   \<and> sendData (replicate 2500 CHR ''A'') idle
     = (Inr (), idle\<lparr>wire := int_bytes 2500 @ replicate 2500 CHR ''A'',
                      calls := [Sys_send (int_bytes 2500), Sys_send (replicate 1000 CHR ''A''),
                                Sys_send (replicate 1000 CHR ''A''),
                                Sys_send (replicate 500 CHR ''A'')]\<rparr>)"
proof (intro conjI)
  show "sendData ''HELLO'' (idle\<lparr>sendq := [Accept 4, Accept 3]\<rparr>)
     = (Inr (), idle\<lparr>wire := int_bytes 5 @ ''HEL'',
                      calls := [Sys_send (int_bytes 5), Sys_send ''HELLO'']\<rparr>)"
    by (simp add: sendData_def strlen_def NUL_def send_def idle_def send_loop_step send_loop_done
        BUFFER_SIZE_def int_bytes_def to_char_def char_of_def Let_def)
next
  have s: "strlen (replicate 2500 CHR ''A'') = 2500"
    by (simp add: strlen_def NUL_def takeWhile_replicate)
  show "sendData (replicate 2500 CHR ''A'') idle
     = (Inr (), idle\<lparr>wire := int_bytes 2500 @ replicate 2500 CHR ''A'',
                      calls := [Sys_send (int_bytes 2500), Sys_send (replicate 1000 CHR ''A''),
                                Sys_send (replicate 1000 CHR ''A''),
                                Sys_send (replicate 500 CHR ''A'')]\<rparr>)"
    by (simp add: sendData_def s send_def idle_def send_loop_step send_loop_done
        BUFFER_SIZE_def Let_def replicate_add [symmetric])
qed

section \<open>Protocol handshake\<close>

lemma of_char_diff: "((of_char a :: int) - of_char b = 0) \<longleftrightarrow> a = b"
  by simp

text \<open>Against an array that holds a string and its terminator, \<^verbatim>\<open>strcmp\<close> of an array of
  the same size stays inside both and returns 0 exactly for the same bytes.\<close>

lemma strcmp_right:
  "NUL \<notin> set zs \<Longrightarrow> length xs = Suc (length zs) \<Longrightarrow>
   \<exists>d. strcmp xs (zs @ [NUL]) = Inr d \<and> (d = 0 \<longleftrightarrow> xs = zs @ [NUL])"
proof (induction zs arbitrary: xs)
  case Nil
  then obtain a where "xs = [a]" by (cases xs) auto
  then show ?case by (simp add: of_char_diff)
next
  case (Cons z zs)
  then obtain a as where xs: "xs = a # as" by (cases xs) auto
  from Cons.prems have z: "z \<noteq> NUL" "NUL \<notin> set zs" by auto
  from Cons.prems xs have len: "length as = Suc (length zs)" by simp
  show ?case
  proof (cases "a = z")
    case True
    with Cons.IH [OF z(2) len] z(1) xs show ?thesis by simp
  next
    case False
    with xs show ?thesis by (simp add: of_char_diff)
  qed
qed

lemma strcmp_left:
  "NUL \<notin> set zs \<Longrightarrow> length xs = Suc (length zs) \<Longrightarrow>
   \<exists>d. strcmp (zs @ [NUL]) xs = Inr d \<and> (d = 0 \<longleftrightarrow> xs = zs @ [NUL])"
proof (induction zs arbitrary: xs)
  case Nil
  then obtain a where "xs = [a]" by (cases xs) auto
  then show ?case by (auto simp: of_char_diff)
next
  case (Cons z zs)
  then obtain a as where xs: "xs = a # as" by (cases xs) auto
  from Cons.prems have z: "z \<noteq> NUL" "NUL \<notin> set zs" by auto
  from Cons.prems xs have len: "length as = Suc (length zs)" by simp
  show ?case
  proof (cases "a = z")
    case True
    with Cons.IH [OF z(2) len] z(1) xs show ?thesis by simp
  next
    case False
    with xs show ?thesis by (auto simp: of_char_diff)
  qed
qed

lemma strcmp_enc:
  assumes "length tag = 4"
  shows "\<exists>d. strcmp tag (''enc'' @ [NUL]) = Inr d \<and> (d = 0 \<longleftrightarrow> tag = ''enc'' @ [NUL])"
  using assms by (intro strcmp_right) (simp_all add: NUL_def)

lemma strcmp_dec:
  assumes "length tag = 4"
  shows "\<exists>d. strcmp (''dec'' @ [NUL]) tag = Inr d \<and> (d = 0 \<longleftrightarrow> tag = ''dec'' @ [NUL])"
  using assms by (intro strcmp_left) (simp_all add: NUL_def)

lemma validate_server_tag:
  assumes "inbox w = Deliver tag # rest" "length tag = 4" "sendq w = []"
  shows "validate_server w =
     (if tag = ''enc'' @ [NUL]
      then (Inr (), w\<lparr>inbox := rest, wire := wire w @ ''enc'' @ [NUL],
                      calls := calls w @ [Sys_recv 4, Sys_send (''enc'' @ [NUL])]\<rparr>)
      else (Inl (Error 2 ''Client not enc_client'' []),
            w\<lparr>inbox := rest, wire := wire w @ ''enc'' @ [NUL],
              calls := calls w @ [Sys_recv 4, Sys_send (''enc'' @ [NUL]), Sys_close]\<rparr>))"
proof -
  from strcmp_enc [OF assms(2)] obtain d where
    d: "strcmp tag (''enc'' @ [NUL]) = Inr d" "d = 0 \<longleftrightarrow> tag = ''enc'' @ [NUL]" by blast
  show ?thesis using assms d
    by (simp add: validate_server_def recv_def send_def close_def Let_def)
qed

lemma validate_client_tag:
  assumes "inbox w = Deliver tag # rest" "length tag = 4" "sendq w = []"
  shows "validate_client w =
     (if tag = ''dec'' @ [NUL]
      then (Inr (), w\<lparr>inbox := rest, wire := wire w @ ''dec'' @ [NUL],
                      calls := calls w @ [Sys_send (''dec'' @ [NUL]), Sys_recv 4]\<rparr>)
      else (Inl (Error 2 ''Server not dec_server'' []),
            w\<lparr>inbox := rest, wire := wire w @ ''dec'' @ [NUL],
              calls := calls w @ [Sys_send (''dec'' @ [NUL]), Sys_recv 4, Sys_close]\<rparr>))"
proof -
  from strcmp_dec [OF assms(2)] obtain d where
    d: "strcmp (''dec'' @ [NUL]) tag = Inr d" "d = 0 \<longleftrightarrow> tag = ''dec'' @ [NUL]" by blast
  show ?thesis using assms d
    by (simp add: validate_client_def recv_def send_def close_def Let_def)
qed

text \<open>
  Claim C5 (handshake), as the code has it. Each side compares the peer's tag with its own
  and goes on only when they are equal. The encryption server that receives the tag \<open>enc\<close>
  returns from \<^verbatim>\<open>validate\<close> and its worker goes on to \<^verbatim>\<open>handleOtpComm\<close>; on any other
  four-byte tag, the \<open>dec\<close> of the decryption client among them, the worker exits with
  status 2 after three calls: the read of the tag, the send of its own tag, and the close.
  The decryption client that receives \<open>dec\<close> returns from \<^verbatim>\<open>validate\<close>; on any other
  four-byte tag, the \<open>enc\<close> of the encryption server among them, it closes and exits with
  status 2.
\<close>

theorem handshake_equal_tags:
  assumes "inbox sw = Deliver ctag # srest" "length ctag = 4" "sendq sw = []"
      and "inbox cw = Deliver stag # crest" "length stag = 4" "sendq cw = []"
  shows "(ctag = ''enc'' @ [NUL] \<longrightarrow>
            child sw =
              (case handleOtpComm
                      (sw\<lparr>inbox := srest, wire := wire sw @ ''enc'' @ [NUL],
                          calls := calls sw @ [Sys_recv 4, Sys_send (''enc'' @ [NUL])]\<rparr>) of
                 None \<Rightarrow> None
               | Some (Inl e, w2) \<Rightarrow> Some (Inl e, w2)
               | Some (Inr u, w2) \<Rightarrow> Some (Inr 0, w2)))
       \<and> (ctag \<noteq> ''enc'' @ [NUL] \<longrightarrow>
            child sw =
              Some (Inl (Error 2 ''Client not enc_client'' []),
                    sw\<lparr>inbox := srest, wire := wire sw @ ''enc'' @ [NUL],
                       calls := calls sw @ [Sys_recv 4, Sys_send (''enc'' @ [NUL]), Sys_close]\<rparr>))
       \<and> (stag = ''dec'' @ [NUL] \<longrightarrow>
            validate_client cw =
              (Inr (), cw\<lparr>inbox := crest, wire := wire cw @ ''dec'' @ [NUL],
                          calls := calls cw @ [Sys_send (''dec'' @ [NUL]), Sys_recv 4]\<rparr>))
       \<and> (stag \<noteq> ''dec'' @ [NUL] \<longrightarrow>
            validate_client cw =
              (Inl (Error 2 ''Server not dec_server'' []),
               cw\<lparr>inbox := crest, wire := wire cw @ ''dec'' @ [NUL],
                  calls := calls cw @ [Sys_send (''dec'' @ [NUL]), Sys_recv 4, Sys_close]\<rparr>))"
proof (intro conjI impI)
  assume "ctag = ''enc'' @ [NUL]"
  then show "child sw =
              (case handleOtpComm
                      (sw\<lparr>inbox := srest, wire := wire sw @ ''enc'' @ [NUL],
                          calls := calls sw @ [Sys_recv 4, Sys_send (''enc'' @ [NUL])]\<rparr>) of
                 None \<Rightarrow> None
               | Some (Inl e, w2) \<Rightarrow> Some (Inl e, w2)
               | Some (Inr u, w2) \<Rightarrow> Some (Inr 0, w2))"
    using validate_server_tag [OF assms(1-3)] by (simp add: child_def)
next
  assume "ctag \<noteq> ''enc'' @ [NUL]"
  then show "child sw =
              Some (Inl (Error 2 ''Client not enc_client'' []),
                    sw\<lparr>inbox := srest, wire := wire sw @ ''enc'' @ [NUL],
                       calls := calls sw @ [Sys_recv 4, Sys_send (''enc'' @ [NUL]), Sys_close]\<rparr>)"
    using validate_server_tag [OF assms(1-3)] by (simp add: child_def)
next
  assume "stag = ''dec'' @ [NUL]"
  then show "validate_client cw =
              (Inr (), cw\<lparr>inbox := crest, wire := wire cw @ ''dec'' @ [NUL],
                          calls := calls cw @ [Sys_send (''dec'' @ [NUL]), Sys_recv 4]\<rparr>)"
    using validate_client_tag [OF assms(4-6)] by simp
next
  assume "stag \<noteq> ''dec'' @ [NUL]"
  then show "validate_client cw =
              (Inl (Error 2 ''Server not dec_server'' []),
               cw\<lparr>inbox := crest, wire := wire cw @ ''dec'' @ [NUL],
                  calls := calls cw @ [Sys_send (''dec'' @ [NUL]), Sys_recv 4, Sys_close]\<rparr>)"
    using validate_client_tag [OF assms(4-6)] by simp
qed

text \<open>The encryption server paired with the decryption client: each receives the tag the
  other sends, and both exit with status 2. With a peer that sends \<open>enc\<close>, then \<open>HELLO\<close> and
  \<open>WORLD\<close>, the worker answers \<open>CSBWR\<close>.\<close>

theorem handshake_equal_tags_witness:
  "child (idle\<lparr>inbox := [Deliver (''dec'' @ [NUL])]\<rparr>)
     = Some (Inl (Error 2 ''Client not enc_client'' []),
             idle\<lparr>wire := ''enc'' @ [NUL],
                  calls := [Sys_recv 4, Sys_send (''enc'' @ [NUL]), Sys_close]\<rparr>)
   \<and> validate_client (idle\<lparr>inbox := [Deliver (''enc'' @ [NUL])]\<rparr>)
     = (Inl (Error 2 ''Server not dec_server'' []),
        idle\<lparr>wire := ''dec'' @ [NUL],
             calls := [Sys_send (''dec'' @ [NUL]), Sys_recv 4, Sys_close]\<rparr>)
   \<and> child (idle\<lparr>inbox := [Deliver (''enc'' @ [NUL]), Deliver (int_bytes 5), Deliver ''HELLO'',
                           Deliver (int_bytes 5), Deliver ''WORLD'']\<rparr>)
     = Some (Inr 0,
             idle\<lparr>wire := ''enc'' @ [NUL] @ int_bytes 5 @ ''CSBWR'',
                  calls := [Sys_recv 4, Sys_send (''enc'' @ [NUL]), Sys_recv 4, Sys_recv 5,
                            Sys_recv 4, Sys_recv 5, Sys_send (int_bytes 5), Sys_send ''CSBWR'',
                            Sys_close]\<rparr>)
   \<and> validate_client (idle\<lparr>inbox := [Deliver (''dec'' @ [NUL])]\<rparr>)
     = (Inr (), idle\<lparr>wire := ''dec'' @ [NUL], calls := [Sys_send (''dec'' @ [NUL]), Sys_recv 4]\<rparr>)"
proof -
  have ne: "''dec'' @ [NUL] \<noteq> ''enc'' @ [NUL]" "''enc'' @ [NUL] \<noteq> ''dec'' @ [NUL]" by simp_all
  have mismatch:
    "inbox (idle\<lparr>inbox := [Deliver (''dec'' @ [NUL])]\<rparr>) = Deliver (''dec'' @ [NUL]) # []"
    "length (''dec'' @ [NUL]) = 4" "sendq (idle\<lparr>inbox := [Deliver (''dec'' @ [NUL])]\<rparr>) = []"
    "inbox (idle\<lparr>inbox := [Deliver (''enc'' @ [NUL])]\<rparr>) = Deliver (''enc'' @ [NUL]) # []"
    "length (''enc'' @ [NUL]) = 4" "sendq (idle\<lparr>inbox := [Deliver (''enc'' @ [NUL])]\<rparr>) = []"
    by (simp_all add: idle_def)
  have match:
    "inbox (idle\<lparr>inbox := [Deliver (''enc'' @ [NUL]), Deliver (int_bytes 5), Deliver ''HELLO'',
                           Deliver (int_bytes 5), Deliver ''WORLD'']\<rparr>)
       = Deliver (''enc'' @ [NUL]) #
         [Deliver (int_bytes 5), Deliver ''HELLO'', Deliver (int_bytes 5), Deliver ''WORLD'']"
    "length (''enc'' @ [NUL]) = 4"
    "sendq (idle\<lparr>inbox := [Deliver (''enc'' @ [NUL]), Deliver (int_bytes 5), Deliver ''HELLO'',
                           Deliver (int_bytes 5), Deliver ''WORLD'']\<rparr>) = []"
    "inbox (idle\<lparr>inbox := [Deliver (''dec'' @ [NUL])]\<rparr>) = Deliver (''dec'' @ [NUL]) # []"
    "length (''dec'' @ [NUL]) = 4" "sendq (idle\<lparr>inbox := [Deliver (''dec'' @ [NUL])]\<rparr>) = []"
    by (simp_all add: idle_def)
  have v: "valid ''HELLO''" by (simp add: valid_def Alphabet_def)
  have e: "encrypt ''HELLO'' ''WORLD'' = Inr ''CSBWR''"
    by (simp add: encrypt_valid [OF v] enc_char_def rank_def symbol_def sc_def
        to_char_def c_rem_def char_of_def)
  have s: "strlen ''HELLO'' = 5" "strlen ''CSBWR'' = 5" by (simp_all add: strlen_def NUL_def)
  have ib: "int_bytes 5 = [CHR 0x05, CHR 0x00, CHR 0x00, CHR 0x00]"
    by (simp add: int_bytes_def to_char_def char_of_def)
  have bi: "bytes_int [CHR 0x05, CHR 0x00, CHR 0x00, CHR 0x00] = 5" by (simp add: bytes_int_def)
  have run: "handleOtpComm
      (idle\<lparr>inbox := [Deliver (int_bytes 5), Deliver ''HELLO'', Deliver (int_bytes 5),
                       Deliver ''WORLD''],
            wire := ''enc'' @ [NUL], calls := [Sys_recv 4, Sys_send (''enc'' @ [NUL])]\<rparr>)
     = Some (Inr (),
             idle\<lparr>wire := ''enc'' @ [NUL] @ int_bytes 5 @ ''CSBWR'',
                  calls := [Sys_recv 4, Sys_send (''enc'' @ [NUL]), Sys_recv 4, Sys_recv 5,
                            Sys_recv 4, Sys_recv 5, Sys_send (int_bytes 5), Sys_send ''CSBWR'',
                            Sys_close]\<rparr>)"
    by (simp add: handleOtpComm_def receive_def recv_def idle_def recv_loop_step recv_loop_done
        BUFFER_SIZE_def ib bi malloc_ok_def size_t_def Let_def e s
        sendData_def send_def send_loop_step send_loop_done close_def)
  have pre: "(idle\<lparr>inbox := [Deliver (''enc'' @ [NUL]), Deliver (int_bytes 5), Deliver ''HELLO'',
                           Deliver (int_bytes 5), Deliver ''WORLD'']\<rparr>)
      \<lparr>inbox := [Deliver (int_bytes 5), Deliver ''HELLO'', Deliver (int_bytes 5), Deliver ''WORLD''],
        wire := wire (idle\<lparr>inbox := [Deliver (''enc'' @ [NUL]), Deliver (int_bytes 5),
                           Deliver ''HELLO'', Deliver (int_bytes 5), Deliver ''WORLD'']\<rparr>)
                @ ''enc'' @ [NUL],
        calls := calls (idle\<lparr>inbox := [Deliver (''enc'' @ [NUL]), Deliver (int_bytes 5),
                           Deliver ''HELLO'', Deliver (int_bytes 5), Deliver ''WORLD'']\<rparr>)
                @ [Sys_recv 4, Sys_send (''enc'' @ [NUL])]\<rparr>
      = idle\<lparr>inbox := [Deliver (int_bytes 5), Deliver ''HELLO'', Deliver (int_bytes 5),
                       Deliver ''WORLD''],
            wire := ''enc'' @ [NUL], calls := [Sys_recv 4, Sys_send (''enc'' @ [NUL])]\<rparr>"
    by (simp add: idle_def)
  from handshake_equal_tags [OF mismatch] ne
  have a: "child (idle\<lparr>inbox := [Deliver (''dec'' @ [NUL])]\<rparr>)
     = Some (Inl (Error 2 ''Client not enc_client'' []),
             idle\<lparr>wire := ''enc'' @ [NUL],
                  calls := [Sys_recv 4, Sys_send (''enc'' @ [NUL]), Sys_close]\<rparr>)"
    and b: "validate_client (idle\<lparr>inbox := [Deliver (''enc'' @ [NUL])]\<rparr>)
     = (Inl (Error 2 ''Server not dec_server'' []),
        idle\<lparr>wire := ''dec'' @ [NUL],
             calls := [Sys_send (''dec'' @ [NUL]), Sys_recv 4, Sys_close]\<rparr>)"
    by (simp_all add: idle_def)
  from handshake_equal_tags [OF match]
  have c: "child (idle\<lparr>inbox := [Deliver (''enc'' @ [NUL]), Deliver (int_bytes 5), Deliver ''HELLO'',
                           Deliver (int_bytes 5), Deliver ''WORLD'']\<rparr>)
     = Some (Inr 0,
             idle\<lparr>wire := ''enc'' @ [NUL] @ int_bytes 5 @ ''CSBWR'',
                  calls := [Sys_recv 4, Sys_send (''enc'' @ [NUL]), Sys_recv 4, Sys_recv 5,
                            Sys_recv 4, Sys_recv 5, Sys_send (int_bytes 5), Sys_send ''CSBWR'',
                            Sys_close]\<rparr>)"
    and d: "validate_client (idle\<lparr>inbox := [Deliver (''dec'' @ [NUL])]\<rparr>)
     = (Inr (), idle\<lparr>wire := ''dec'' @ [NUL], calls := [Sys_send (''dec'' @ [NUL]), Sys_recv 4]\<rparr>)"
    unfolding pre run by (simp_all add: idle_def)
  from a b c d show ?thesis by (intro conjI)
qed

text \<open>
  Against claim C5 as stated: the encryption server that receives the tag the decryption
  client sends fails the handshake, the client fails it on the server's tag, and the
  encryption server completes it with a peer that sends \<open>enc\<close>.
\<close>

theorem handshake_enc_dec_counterexample:
  "wire (snd (validate_client (idle\<lparr>inbox := [Deliver (''enc'' @ [NUL])]\<rparr>))) = ''dec'' @ [NUL]
   \<and> wire (snd (validate_server (idle\<lparr>inbox := [Deliver (''dec'' @ [NUL])]\<rparr>))) = ''enc'' @ [NUL]
   \<and> fst (validate_server (idle\<lparr>inbox := [Deliver (''dec'' @ [NUL])]\<rparr>))
       = Inl (Error 2 ''Client not enc_client'' [])
   \<and> fst (validate_client (idle\<lparr>inbox := [Deliver (''enc'' @ [NUL])]\<rparr>))
       = Inl (Error 2 ''Server not dec_server'' [])
   \<and> fst (validate_server (idle\<lparr>inbox := [Deliver (''enc'' @ [NUL])]\<rparr>)) = Inr ()"
  by (simp add: validate_server_def validate_client_def recv_def send_def close_def idle_def
      NUL_def Let_def)

section \<open>The client\<close>

lemma of_char_bound: "(of_char c :: int) < 256"
proof -
  have "(of_char c :: int) mod 256 < 256" by (rule pos_mod_bound) simp
  moreover have "(of_char c :: int) mod 256 = of_char c" by (rule of_char_mod_256)
  ultimately show ?thesis by (simp only:)
qed

lemma Alphabet_checked: "c \<in> Alphabet \<Longrightarrow> \<not> invalid_char c"
  unfolding Alphabet_def
  by (simp only: set_simps, elim insertE emptyE; simp add: invalid_char_def sc_def)

lemma checked_Alphabet:
  assumes "\<not> invalid_char c"
  shows "c \<in> Alphabet"
proof (cases "c = CHR '' ''")
  case True
  then show ?thesis by (simp add: Alphabet_def)
next
  case False
  have AZ: "sc CHR ''A'' = 65" "sc CHR ''Z'' = 90" by (simp_all add: sc_def)
  from assms False have r: "65 \<le> sc c" "sc c \<le> 90" by (simp_all add: invalid_char_def AZ)
  have oc: "(of_char c :: int) = sc c"
  proof (cases "(of_char c :: int) < 128")
    case True
    then show ?thesis by (simp add: sc_def)
  next
    case False
    then have "sc c = of_char c - 256" by (simp add: sc_def)
    with of_char_bound [of c] r(1) show ?thesis by simp
  qed
  have "symbol (sc c - 65) = char_of (of_char c :: int)"
    using r oc by (simp add: symbol_def to_char_def AZ)
  then have "symbol (sc c - 65) = c" by simp
  moreover have "symbol (sc c - 65) \<in> Alphabet" using r by (intro symbol_Alphabet) simp_all
  ultimately show ?thesis by simp
qed

lemma read_loop_stop: "\<not> i < len \<Longrightarrow> read_loop path content len i buffer = Inr buffer"
  by (subst read_loop.simps) simp

lemma read_loop_bad:
  "i < len \<Longrightarrow> invalid_char (fgetc content i) \<Longrightarrow>
   read_loop path content len i buffer =
     Inl (Error 0 ''Invalid character found in file %s: %c, %d''
            [S path, C (fgetc content i), D (sc (fgetc content i))])"
  by (subst read_loop.simps) (simp add: Let_def)

lemma read_loop_next:
  "i < len \<Longrightarrow> \<not> invalid_char (fgetc content i) \<Longrightarrow>
   read_loop path content len i buffer =
     read_loop path content len (i + 1) (buffer @ [fgetc content i])"
  by (subst read_loop.simps) (simp add: Let_def)

lemma read_loop_valid:
  "read_loop path content len i buffer = Inr s \<Longrightarrow> valid buffer \<Longrightarrow> valid s"
proof (induction path content len i buffer rule: read_loop.induct)
  case (1 path content len i buffer)
  show ?case
  proof (cases "i < len")
    case False
    with "1.prems" show ?thesis by (simp add: read_loop_stop)
  next
    case True
    show ?thesis
    proof (cases "invalid_char (fgetc content i)")
      case bad: True
      with True "1.prems"(1) show ?thesis by (simp add: read_loop_bad)
    next
      case ok: False
      then have "fgetc content i \<in> Alphabet" by (rule checked_Alphabet)
      with "1.prems"(2) have v: "valid (buffer @ [fgetc content i])" by (simp add: valid_def)
      from True ok "1.prems"(1)
      have "read_loop path content len (i + 1) (buffer @ [fgetc content i]) = Inr s"
        by (simp add: read_loop_next)
      from "1.IH" [OF True refl ok this v] show ?thesis .
    qed
  qed
qed

lemma read_loop_ok:
  "len \<le> length content \<Longrightarrow> i \<le> len \<Longrightarrow> valid (take len content) \<Longrightarrow>
   read_loop path content len i buffer = Inr (buffer @ drop i (take len content))"
proof (induction "len - i" arbitrary: i buffer)
  case 0
  then show ?case by (simp add: read_loop_stop)
next
  case (Suc n)
  then have lt: "i < len" and n: "n = len - Suc i" by simp_all
  have ci: "take len content ! i = content ! i" using lt by simp
  have fg: "fgetc content i = content ! i" using lt Suc.prems(1) by (simp add: fgetc_def)
  have "take len content ! i \<in> Alphabet"
    using Suc.prems lt by (intro valid_nth) simp_all
  then have ok: "\<not> invalid_char (fgetc content i)"
    unfolding ci fg by (rule Alphabet_checked)
  have step: "read_loop path content len i buffer =
      read_loop path content len (Suc i) (buffer @ [content ! i])"
    using read_loop_next [OF lt ok] by (simp add: fg)
  have "drop i (take len content) = content ! i # drop (Suc i) (take len content)"
    using lt Suc.prems(1) ci by (metis Cons_nth_drop_Suc length_take min.absorb2)
  then show ?case
    using Suc.hyps(1) [OF n] Suc.prems lt step by simp
qed

lemma stringFromFile_valid: "stringFromFile w path = Inr s \<Longrightarrow> valid s"
proof -
  assume a: "stringFromFile w path = Inr s"
  then obtain content where c: "files w path = Some content"
    by (cases "files w path") (simp_all add: stringFromFile_def)
  from a c have "read_loop path content (size_t (int (length content) - 1)) 0 [] = Inr s"
    by (simp add: stringFromFile_def Let_def split: if_splits)
  then show ?thesis by (rule read_loop_valid) (simp add: valid_def)
qed

text \<open>What \<^verbatim>\<open>stringFromFile\<close> returns for a file that can be read: all but its last byte,
  which is neither read nor checked.\<close>

lemma stringFromFile_butlast:
  assumes "files w path = Some content" "content \<noteq> []" "length content < 2 ^ 64"
    and "malloc_ok w (length content)" "valid (butlast content)"
  shows "stringFromFile w path = Inr (butlast content)"
proof -
  have pos: "0 < length content" using assms(2) by simp
  then have "(int (length content) - 1) mod 2 ^ 64 = int (length content) - 1"
    using assms(3) by (intro mod_pos_pos_trivial) simp_all
  then have len: "size_t (int (length content) - 1) = length content - 1"
    using pos by (simp add: size_t_def)
  have "int (length content - 1) + 1 = int (length content)" using pos by linarith
  then have "(int (length content - 1) + 1) mod 2 ^ 64 = int (length content)"
    using assms(3) by simp
  then have sz: "size_t (int (length content - 1) + 1) = length content"
    by (simp add: size_t_def)
  have "read_loop path content (length content - 1) 0 [] =
      Inr ([] @ drop 0 (take (length content - 1) content))"
    using assms(5) by (intro read_loop_ok) (simp_all add: butlast_conv_take)
  then show ?thesis using assms(1,4) len sz
    by (simp add: stringFromFile_def butlast_conv_take)
qed

text \<open>
  Claim C8 (the file reader). \<^verbatim>\<open>stringFromFile\<close> takes \<^verbatim>\<open>ftell(file) - 1\<close> bytes: it drops
  the last byte of the file whatever it is, and never looks at it. A file that ends in a
  newline comes back without it, and a byte outside the alphabet before the last one is
  reported with its code. But the file \<open>ABC\<close>, with no newline, comes back as \<open>AB\<close>, and the
  file \<open>AB$\<close> comes back as \<open>AB\<close> with no error.
\<close>

theorem stringFromFile_last_byte:
  "stringFromFile (idle\<lparr>files := [''plain'' \<mapsto> ''ABC'']\<rparr>) ''plain'' = Inr ''AB''
   \<and> stringFromFile (idle\<lparr>files := [''plain'' \<mapsto> ''AB$'']\<rparr>) ''plain'' = Inr ''AB''
   \<and> stringFromFile (idle\<lparr>files := [''plain'' \<mapsto> ''HELLO WORLD\<newline>'']\<rparr>) ''plain''
       = Inr ''HELLO WORLD''
   \<and> stringFromFile (idle\<lparr>files := [''plain'' \<mapsto> ''A$C\<newline>'']\<rparr>) ''plain''
       = Inl (Error 0 ''Invalid character found in file %s: %c, %d''
                [S ''plain'', C CHR ''$'', D 36])"
proof (intro conjI)
  have v: "valid ''AB''" "valid ''HELLO WORLD''" by (simp_all add: valid_def Alphabet_def)
  show "stringFromFile (idle\<lparr>files := [''plain'' \<mapsto> ''ABC'']\<rparr>) ''plain'' = Inr ''AB''"
    using v(1) stringFromFile_butlast [of "idle\<lparr>files := [''plain'' \<mapsto> ''ABC'']\<rparr>" "''plain''" "''ABC''"]
    by (simp add: idle_def malloc_ok_def)
  show "stringFromFile (idle\<lparr>files := [''plain'' \<mapsto> ''AB$'']\<rparr>) ''plain'' = Inr ''AB''"
    using v(1) stringFromFile_butlast [of "idle\<lparr>files := [''plain'' \<mapsto> ''AB$'']\<rparr>" "''plain''" "''AB$''"]
    by (simp add: idle_def malloc_ok_def)
  show "stringFromFile (idle\<lparr>files := [''plain'' \<mapsto> ''HELLO WORLD\<newline>'']\<rparr>) ''plain''
       = Inr ''HELLO WORLD''"
    using v(2) stringFromFile_butlast [of "idle\<lparr>files := [''plain'' \<mapsto> ''HELLO WORLD\<newline>'']\<rparr>"
        "''plain''" "''HELLO WORLD\<newline>''"]
    by (simp add: idle_def malloc_ok_def)
  have a: "\<not> invalid_char CHR ''A''" and d: "invalid_char CHR ''$''" and s: "sc CHR ''$'' = 36"
    by (simp_all add: invalid_char_def sc_def)
  show "stringFromFile (idle\<lparr>files := [''plain'' \<mapsto> ''A$C\<newline>'']\<rparr>) ''plain''
       = Inl (Error 0 ''Invalid character found in file %s: %c, %d''
                [S ''plain'', C CHR ''$'', D 36])"
    by (simp add: stringFromFile_def idle_def malloc_ok_def size_t_def Let_def
        read_loop_next read_loop_bad fgetc_def a d s)
qed

text \<open>A whole run of the client against a peer that answers \<open>dec\<close> and returns \<open>HELLO\<close>, and
  a run whose second read fails.\<close>

lemma client_run:
  "main_client [''dec_client'', ''text'', ''key'', ''5000'']
     (idle\<lparr>files := [''text'' \<mapsto> ''CSBWR\<newline>'', ''key'' \<mapsto> ''WORLD\<newline>''],
           inbox := [Deliver (''dec'' @ [NUL]), Deliver (int_bytes 5), Deliver ''HELLO'']\<rparr>)
   = Some (Inr ''HELLO\<newline>'',
           idle\<lparr>files := [''text'' \<mapsto> ''CSBWR\<newline>'', ''key'' \<mapsto> ''WORLD\<newline>''],
                wire := ''dec'' @ [NUL] @ int_bytes 5 @ ''CSBWR'' @ int_bytes 5 @ ''WORLD'',
                calls := [Sys_socket, Sys_gethostbyname, Sys_connect, Sys_send (''dec'' @ [NUL]),
                          Sys_recv 4, Sys_send (int_bytes 5), Sys_send ''CSBWR'',
                          Sys_send (int_bytes 5), Sys_send ''WORLD'', Sys_recv 4, Sys_recv 5,
                          Sys_close]\<rparr>)"
proof -
  define w where "w = idle\<lparr>files := [''text'' \<mapsto> ''CSBWR\<newline>'', ''key'' \<mapsto> ''WORLD\<newline>''],
           inbox := [Deliver (''dec'' @ [NUL]), Deliver (int_bytes 5), Deliver ''HELLO'']\<rparr>"
  have v: "valid ''CSBWR''" "valid ''WORLD''" by (simp_all add: valid_def Alphabet_def)
  have t: "stringFromFile w ''text'' = Inr ''CSBWR''"
    using v(1) stringFromFile_butlast [of w "''text''" "''CSBWR\<newline>''"]
    by (simp add: w_def idle_def malloc_ok_def)
  have k: "stringFromFile w ''key'' = Inr ''WORLD''"
    using v(2) stringFromFile_butlast [of w "''key''" "''WORLD\<newline>''"]
    by (simp add: w_def idle_def malloc_ok_def)
  have s: "strlen ''CSBWR'' = 5" "strlen ''WORLD'' = 5" by (simp_all add: strlen_def NUL_def)
  have f: "inbox w = [Deliver (''dec'' @ [NUL]), Deliver (int_bytes 5), Deliver ''HELLO'']"
    "sendq w = []" "wire w = []" "calls w = []" "socket_fails w = False"
    "host_unknown w = False" "connect_fails w = False" "mem_limit w = 2 ^ 32"
    by (simp_all add: w_def idle_def)
  have ib: "int_bytes 5 = [CHR 0x05, CHR 0x00, CHR 0x00, CHR 0x00]"
    by (simp add: int_bytes_def to_char_def char_of_def)
  have bi: "bytes_int [CHR 0x05, CHR 0x00, CHR 0x00, CHR 0x00] = 5" by (simp add: bytes_int_def)
  have "main_client [''dec_client'', ''text'', ''key'', ''5000''] w
   = Some (Inr ''HELLO\<newline>'',
           w\<lparr>inbox := [], wire := ''dec'' @ [NUL] @ int_bytes 5 @ ''CSBWR'' @ int_bytes 5 @ ''WORLD'',
                calls := [Sys_socket, Sys_gethostbyname, Sys_connect, Sys_send (''dec'' @ [NUL]),
                          Sys_recv 4, Sys_send (int_bytes 5), Sys_send ''CSBWR'',
                          Sys_send (int_bytes 5), Sys_send ''WORLD'', Sys_recv 4, Sys_recv 5,
                          Sys_close]\<rparr>)"
    by (simp add: main_client_def t k s f validate_client_def recv_def send_def close_def
        Let_def NUL_def sendData_def send_loop_step send_loop_done BUFFER_SIZE_def ib bi
        receive_def recv_loop_step recv_loop_done malloc_ok_def size_t_def)
  then show ?thesis by (simp add: w_def idle_def)
qed

lemma client_transport_failure:
  "run_status (main_client [''dec_client'', ''text'', ''key'', ''5000'']
     (idle\<lparr>files := [''text'' \<mapsto> ''CSBWR\<newline>'', ''key'' \<mapsto> ''WORLD\<newline>''],
           inbox := [Deliver (''dec'' @ [NUL]), RecvError]\<rparr>)) = Some 1"
proof -
  define w where "w = idle\<lparr>files := [''text'' \<mapsto> ''CSBWR\<newline>'', ''key'' \<mapsto> ''WORLD\<newline>''],
           inbox := [Deliver (''dec'' @ [NUL]), RecvError]\<rparr>"
  have v: "valid ''CSBWR''" "valid ''WORLD''" by (simp_all add: valid_def Alphabet_def)
  have t: "stringFromFile w ''text'' = Inr ''CSBWR''"
    using v(1) stringFromFile_butlast [of w "''text''" "''CSBWR\<newline>''"]
    by (simp add: w_def idle_def malloc_ok_def)
  have k: "stringFromFile w ''key'' = Inr ''WORLD''"
    using v(2) stringFromFile_butlast [of w "''key''" "''WORLD\<newline>''"]
    by (simp add: w_def idle_def malloc_ok_def)
  have s: "strlen ''CSBWR'' = 5" "strlen ''WORLD'' = 5" by (simp_all add: strlen_def NUL_def)
  have f: "inbox w = [Deliver (''dec'' @ [NUL]), RecvError]"
    "sendq w = []" "wire w = []" "calls w = []" "socket_fails w = False"
    "host_unknown w = False" "connect_fails w = False" "mem_limit w = 2 ^ 32"
    by (simp_all add: w_def idle_def)
  have "run_status (main_client [''dec_client'', ''text'', ''key'', ''5000''] w) = Some 1"
    by (simp add: main_client_def t k s f validate_client_def recv_def send_def close_def
        Let_def NUL_def sendData_def send_loop_step send_loop_done BUFFER_SIZE_def
        receive_def)
  then show ?thesis by (simp add: w_def)
qed

text \<open>
  Claim C6 (exit codes). The client's \<^verbatim>\<open>main\<close> and \<^verbatim>\<open>stringFromFile\<close> report their failures
  with \<^verbatim>\<open>error(0, ...)\<close>: run without arguments, with a file that cannot be opened, with a
  file that holds a byte outside the alphabet, or with a key shorter than the text, the
  client exits with status 0, as a run that succeeds does. The server run without arguments
  exits with status 1, a failed read exits with status 1, and a tag mismatch exits with
  status 2.
\<close>

theorem client_failures_exit_0:
  "main_client [''dec_client''] idle
     = Some (Inl (Error 0 ''USAGE: %s port\<newline>'' [S ''dec_client'']), idle)
   \<and> run_status (main_client [''dec_client''] idle) = Some 0
   \<and> run_status (main_client [''dec_client'', ''text'', ''key'', ''5000''] idle) = Some 0
   \<and> run_status (main_client [''dec_client'', ''text'', ''key'', ''5000'']
        (idle\<lparr>files := [''text'' \<mapsto> ''A$C\<newline>'', ''key'' \<mapsto> ''XYZ\<newline>'']\<rparr>)) = Some 0
   \<and> run_status (main_client [''dec_client'', ''text'', ''key'', ''5000'']
        (idle\<lparr>files := [''text'' \<mapsto> ''HELLO\<newline>'', ''key'' \<mapsto> ''XYZ\<newline>'']\<rparr>)) = Some 0
   \<and> exit_status (server_usage [''enc_server'']) = Some 1
   \<and> run_status (child (idle\<lparr>inbox := [Deliver (''dec'' @ [NUL])]\<rparr>)) = Some 2
   \<and> run_status (main_client [''dec_client'', ''text'', ''key'', ''5000'']
        (idle\<lparr>files := [''text'' \<mapsto> ''CSBWR\<newline>'', ''key'' \<mapsto> ''WORLD\<newline>''],
              inbox := [Deliver (''dec'' @ [NUL]), RecvError]\<rparr>)) = Some 1
   \<and> run_status (main_client [''dec_client'', ''text'', ''key'', ''5000'']
        (idle\<lparr>files := [''text'' \<mapsto> ''CSBWR\<newline>'', ''key'' \<mapsto> ''WORLD\<newline>''],
              inbox := [Deliver (''dec'' @ [NUL]), Deliver (int_bytes 5), Deliver ''HELLO'']\<rparr>))
       = Some 0"
proof (intro conjI)
  show "main_client [''dec_client''] idle
     = Some (Inl (Error 0 ''USAGE: %s port\<newline>'' [S ''dec_client'']), idle)"
    by (simp add: main_client_def)
  show "run_status (main_client [''dec_client''] idle) = Some 0"
    by (simp add: main_client_def)
  show "run_status (main_client [''dec_client'', ''text'', ''key'', ''5000''] idle) = Some 0"
    by (simp add: main_client_def stringFromFile_def idle_def)
  have d: "\<not> invalid_char CHR ''A''" "invalid_char CHR ''$''"
    by (simp_all add: invalid_char_def sc_def)
  show "run_status (main_client [''dec_client'', ''text'', ''key'', ''5000'']
        (idle\<lparr>files := [''text'' \<mapsto> ''A$C\<newline>'', ''key'' \<mapsto> ''XYZ\<newline>'']\<rparr>)) = Some 0"
    by (simp add: main_client_def stringFromFile_def idle_def malloc_ok_def size_t_def Let_def
        read_loop_next read_loop_bad fgetc_def d)
  have v: "valid ''HELLO''" "valid ''XYZ''" by (simp_all add: valid_def Alphabet_def)
  have t: "stringFromFile (idle\<lparr>files := [''text'' \<mapsto> ''HELLO\<newline>'', ''key'' \<mapsto> ''XYZ\<newline>'']\<rparr>) ''text''
      = Inr ''HELLO''"
    using v(1) stringFromFile_butlast [of
        "idle\<lparr>files := [''text'' \<mapsto> ''HELLO\<newline>'', ''key'' \<mapsto> ''XYZ\<newline>'']\<rparr>"
        "''text''" "''HELLO\<newline>''"]
    by (simp add: idle_def malloc_ok_def)
  have k: "stringFromFile (idle\<lparr>files := [''text'' \<mapsto> ''HELLO\<newline>'', ''key'' \<mapsto> ''XYZ\<newline>'']\<rparr>) ''key''
      = Inr ''XYZ''"
    using v(2) stringFromFile_butlast [of
        "idle\<lparr>files := [''text'' \<mapsto> ''HELLO\<newline>'', ''key'' \<mapsto> ''XYZ\<newline>'']\<rparr>"
        "''key''" "''XYZ\<newline>''"]
    by (simp add: idle_def malloc_ok_def)
  show "run_status (main_client [''dec_client'', ''text'', ''key'', ''5000'']
        (idle\<lparr>files := [''text'' \<mapsto> ''HELLO\<newline>'', ''key'' \<mapsto> ''XYZ\<newline>'']\<rparr>)) = Some 0"
    by (simp add: main_client_def t k strlen_def NUL_def)
  show "exit_status (server_usage [''enc_server'']) = Some 1"
    by (simp add: server_usage_def)
  show "run_status (child (idle\<lparr>inbox := [Deliver (''dec'' @ [NUL])]\<rparr>)) = Some 2"
    by (simp add: child_def validate_server_def recv_def send_def close_def idle_def
        NUL_def Let_def)
  show "run_status (main_client [''dec_client'', ''text'', ''key'', ''5000'']
        (idle\<lparr>files := [''text'' \<mapsto> ''CSBWR\<newline>'', ''key'' \<mapsto> ''WORLD\<newline>''],
              inbox := [Deliver (''dec'' @ [NUL]), RecvError]\<rparr>)) = Some 1"
    by (rule client_transport_failure)
  show "run_status (main_client [''dec_client'', ''text'', ''key'', ''5000'']
        (idle\<lparr>files := [''text'' \<mapsto> ''CSBWR\<newline>'', ''key'' \<mapsto> ''WORLD\<newline>''],
              inbox := [Deliver (''dec'' @ [NUL]), Deliver (int_bytes 5), Deliver ''HELLO'']\<rparr>))
       = Some 0"
    by (subst client_run) simp
qed

text \<open>
  Claim C7 (key too short). When both files have been read and the key is shorter than
  the text, the client stops with the error \<open>Key shorter than text\<close> in the world it started
  in: no socket has been opened, no call has been made, nothing is on the stream. The check
  is the client's alone: the server's transform never reports an error for such a pair.
\<close>

theorem key_too_short_no_network:
  assumes "4 \<le> length argv"
    and "stringFromFile w (argv ! 1) = Inr tx"
    and "stringFromFile w (argv ! 2) = Inr key"
    and "length key < length tx"
  shows "main_client argv w = Some (Inl (Error 0 ''Key shorter than text'' []), w)
       \<and> (\<forall>c fmt args. encrypt tx key \<noteq> Inl (Error c fmt args))"
proof
  have "strlen tx = length tx" "strlen key = length key"
    using assms(2,3) by (simp_all add: stringFromFile_valid strlen_valid)
  then show "main_client argv w = Some (Inl (Error 0 ''Key shorter than text'' []), w)"
    using assms by (simp add: main_client_def)
  show "\<forall>c fmt args. encrypt tx key \<noteq> Inl (Error c fmt args)"
    by (simp add: encrypt_eq)
qed

theorem key_too_short_no_network_witness:
  "stringFromFile (idle\<lparr>files := [''text'' \<mapsto> ''HELLOWORLD\<newline>'', ''key'' \<mapsto> ''ABCDE\<newline>'']\<rparr>) ''text''
     = Inr ''HELLOWORLD''
   \<and> stringFromFile (idle\<lparr>files := [''text'' \<mapsto> ''HELLOWORLD\<newline>'', ''key'' \<mapsto> ''ABCDE\<newline>'']\<rparr>) ''key''
     = Inr ''ABCDE''
   \<and> length ''ABCDE'' = 5 \<and> length ''HELLOWORLD'' = 10
   \<and> main_client [''dec_client'', ''text'', ''key'', ''5000'']
        (idle\<lparr>files := [''text'' \<mapsto> ''HELLOWORLD\<newline>'', ''key'' \<mapsto> ''ABCDE\<newline>'']\<rparr>)
     = Some (Inl (Error 0 ''Key shorter than text'' []),
             idle\<lparr>files := [''text'' \<mapsto> ''HELLOWORLD\<newline>'', ''key'' \<mapsto> ''ABCDE\<newline>'']\<rparr>)
   \<and> calls (idle\<lparr>files := [''text'' \<mapsto> ''HELLOWORLD\<newline>'', ''key'' \<mapsto> ''ABCDE\<newline>'']\<rparr>) = []
   \<and> wire (idle\<lparr>files := [''text'' \<mapsto> ''HELLOWORLD\<newline>'', ''key'' \<mapsto> ''ABCDE\<newline>'']\<rparr>) = []"
proof -
  define w where "w = idle\<lparr>files := [''text'' \<mapsto> ''HELLOWORLD\<newline>'', ''key'' \<mapsto> ''ABCDE\<newline>'']\<rparr>"
  have v: "valid ''HELLOWORLD''" "valid ''ABCDE''" by (simp_all add: valid_def Alphabet_def)
  have t: "stringFromFile w ''text'' = Inr ''HELLOWORLD''"
    using v(1) stringFromFile_butlast [of w "''text''" "''HELLOWORLD\<newline>''"]
    by (simp add: w_def idle_def malloc_ok_def)
  have k: "stringFromFile w ''key'' = Inr ''ABCDE''"
    using v(2) stringFromFile_butlast [of w "''key''" "''ABCDE\<newline>''"]
    by (simp add: w_def idle_def malloc_ok_def)
  have "main_client [''dec_client'', ''text'', ''key'', ''5000''] w
      = Some (Inl (Error 0 ''Key shorter than text'' []), w)"
    using key_too_short_no_network
      [of "[''dec_client'', ''text'', ''key'', ''5000'']" w "''HELLOWORLD''" "''ABCDE''"] t k
    by simp
  with t k show ?thesis unfolding w_def by (simp add: idle_def)
qed

section \<open>The worker's transform on what it received\<close>

text \<open>
  Claim C10 (the server checks nothing). Whatever bytes the two received buffers hold, the
  loop of \<^verbatim>\<open>handleOtpComm\<close> reads \<^verbatim>\<open>key[i]\<close> for every \<open>i\<close> below the length of the text and
  never rejects its input: a byte outside the alphabet is encrypted like any other. When
  the key is shorter than the text the loop reads index \<open>length key\<close>, which holds the
  terminator and no symbol of the key, and with a text longer still it reads index
  \<open>length key + 1\<close>, outside the key's buffer. \<^verbatim>\<open>handleOtpComm\<close> hands the two messages it
  received to that loop as they are.
\<close>

theorem encrypt_unchecked:
  "encrypt tx key =
     (if strlen tx \<le> Suc (length key)
      then Inr (map (\<lambda>i. enc_char (byte_at tx i) (byte_at key i)) [0..<strlen tx])
      else Inl (Undefined (ReadOutOfBounds (Suc (length key)))))
   \<and> (length key < strlen tx \<longrightarrow>
        encrypt tx key = Inl (Undefined (ReadOutOfBounds (Suc (length key)))) \<or>
        (\<exists>r. encrypt tx key = Inr r \<and> length r = Suc (length key) \<and>
             r ! length key = enc_char (tx ! length key) NUL))
   \<and> (receive w = Some (Inr tx, w1) \<and> receive w1 = Some (Inr key, w2) \<and>
        malloc_ok w2 (strlen tx + 1) \<longrightarrow>
        handleOtpComm w =
          (case encrypt tx key of
             Inl e \<Rightarrow> Some (Inl e, w2)
           | Inr result \<Rightarrow>
               (case sendData result w2 of
                  (Inl e, w3) \<Rightarrow> Some (Inl e, w3)
                | (Inr u, w3) \<Rightarrow> Some (Inr (), close w3))))"
proof (intro conjI impI)
  show "encrypt tx key =
     (if strlen tx \<le> Suc (length key)
      then Inr (map (\<lambda>i. enc_char (byte_at tx i) (byte_at key i)) [0..<strlen tx])
      else Inl (Undefined (ReadOutOfBounds (Suc (length key)))))"
    by (rule encrypt_eq)
next
  assume short: "length key < strlen tx"
  show "encrypt tx key = Inl (Undefined (ReadOutOfBounds (Suc (length key)))) \<or>
        (\<exists>r. encrypt tx key = Inr r \<and> length r = Suc (length key) \<and>
             r ! length key = enc_char (tx ! length key) NUL)"
  proof (cases "strlen tx \<le> Suc (length key)")
    case False
    then show ?thesis by (simp add: encrypt_eq)
  next
    case True
    with short have n: "strlen tx = Suc (length key)" by simp
    have "length key < length tx" using short strlen_le [of tx] by simp
    then have "byte_at tx (length key) = tx ! length key" "byte_at key (length key) = NUL"
      by (simp_all add: byte_at_def)
    then show ?thesis by (simp add: encrypt_eq n nth_append)
  qed
next
  assume "receive w = Some (Inr tx, w1) \<and> receive w1 = Some (Inr key, w2) \<and>
        malloc_ok w2 (strlen tx + 1)"
  then show "handleOtpComm w =
          (case encrypt tx key of
             Inl e \<Rightarrow> Some (Inl e, w2)
           | Inr result \<Rightarrow>
               (case sendData result w2 of
                  (Inl e, w3) \<Rightarrow> Some (Inl e, w3)
                | (Inr u, w3) \<Rightarrow> Some (Inr (), close w3)))"
    by (simp add: handleOtpComm_def)
qed

text \<open>The worker receives the text \<open>HELLO\<close> and the key \<open>WOR\<close>, and reads \<^verbatim>\<open>key[4]\<close>, outside
  the four bytes of the key's buffer; bytes outside the alphabet are encrypted as they come.\<close>

theorem encrypt_unchecked_witness:
  "length ''WOR'' < strlen ''HELLO''
   \<and> handleOtpComm (idle\<lparr>inbox := [Deliver (int_bytes 5), Deliver ''HELLO'',
                                   Deliver (int_bytes 3), Deliver ''WOR'']\<rparr>)
       = Some (Inl (Undefined (ReadOutOfBounds 4)),
               idle\<lparr>calls := [Sys_recv 4, Sys_recv 5, Sys_recv 4, Sys_recv 3]\<rparr>)
   \<and> encrypt ''HE1LO'' ''xyz12'' = Inr ''IGO<@''"
proof -
  define w where "w = idle\<lparr>inbox := [Deliver (int_bytes 5), Deliver ''HELLO'',
                                   Deliver (int_bytes 3), Deliver ''WOR'']\<rparr>"
  define w1 where "w1 = idle\<lparr>inbox := [Deliver (int_bytes 3), Deliver ''WOR''],
                           calls := [Sys_recv 4, Sys_recv 5]\<rparr>"
  define w2 where "w2 = idle\<lparr>calls := [Sys_recv 4, Sys_recv 5, Sys_recv 4, Sys_recv 3]\<rparr>"
  have s: "strlen ''HELLO'' = 5" by (simp add: strlen_def NUL_def)
  have ib: "int_bytes 5 = [CHR 0x05, CHR 0x00, CHR 0x00, CHR 0x00]"
    "int_bytes 3 = [CHR 0x03, CHR 0x00, CHR 0x00, CHR 0x00]"
    by (simp_all add: int_bytes_def to_char_def char_of_def)
  have bi: "bytes_int [CHR 0x05, CHR 0x00, CHR 0x00, CHR 0x00] = 5"
    "bytes_int [CHR 0x03, CHR 0x00, CHR 0x00, CHR 0x00] = 3"
    by (simp_all add: bytes_int_def)
  have r1: "receive w = Some (Inr ''HELLO'', w1)"
    by (simp add: w_def w1_def receive_def recv_def idle_def recv_loop_step recv_loop_done
        BUFFER_SIZE_def ib bi malloc_ok_def size_t_def Let_def)
  have r2: "receive w1 = Some (Inr ''WOR'', w2)"
    by (simp add: w1_def w2_def receive_def recv_def idle_def recv_loop_step recv_loop_done
        BUFFER_SIZE_def ib bi malloc_ok_def size_t_def Let_def)
  have m: "malloc_ok w2 (strlen ''HELLO'' + 1)"
    by (simp add: w2_def s malloc_ok_def idle_def)
  from encrypt_unchecked [of "''HELLO''" "''WOR''" w w1 w2] r1 r2 m
  have a: "handleOtpComm w = Some (Inl (Undefined (ReadOutOfBounds 4)), w2)"
    by (simp add: s)
  from encrypt_unchecked [of "''HE1LO''" "''xyz12''"]
  have b: "encrypt ''HE1LO'' ''xyz12'' = Inr ''IGO<@''"
    by (simp add: strlen_def NUL_def byte_at_def enc_char_def rank_def symbol_def sc_def
        to_char_def c_rem_def char_of_def)
  from a b s show ?thesis unfolding w_def w2_def by simp
qed

end
